theory Spec2Isabelle
  imports Main
begin

section \<open>The in-memory store of server/storage.ts\<close>

text \<open>
  The store keeps four ECMAScript \<open>Map\<close> objects and four counters. A \<open>Map\<close>
  iterates in insertion order, \<open>set\<close> on a key that is present replaces the value in
  place and on a fresh key appends, \<open>delete\<close> removes the entry of the key. It is
  modelled as an association list in insertion order that holds every key once.

  Strings are lists of 8-bit characters, read as the code units U+0000 to U+00FF.
  Ids and counters are unbounded naturals. Chapter and verse numbers are doubles with an
  integer value and are kept as integers; a number parsed from a query is rounded to a
  double before it is compared with them.
\<close>

subsection \<open>ECMAScript Map\<close>

type_synonym ('k, 'v) jsmap = "('k \<times> 'v) list"

fun map_set :: "'k \<Rightarrow> 'v \<Rightarrow> ('k, 'v) jsmap \<Rightarrow> ('k, 'v) jsmap" where
  "map_set k v [] = [(k, v)]"
| "map_set k v ((k', v') # m) = (if k' = k then (k, v) # m else (k', v') # map_set k v m)"

fun map_delete :: "'k \<Rightarrow> ('k, 'v) jsmap \<Rightarrow> ('k, 'v) jsmap" where
  "map_delete k [] = []"
| "map_delete k ((k', v') # m) = (if k' = k then m else (k', v') # map_delete k m)"

definition map_get :: "('k, 'v) jsmap \<Rightarrow> 'k \<Rightarrow> 'v option" where
  "map_get m k = map_of m k"

definition map_has :: "('k, 'v) jsmap \<Rightarrow> 'k \<Rightarrow> bool" where
  "map_has m k = (k \<in> set (map fst m))"

definition map_values :: "('k, 'v) jsmap \<Rightarrow> 'v list" where
  "map_values m = map snd m"

subsection \<open>Records of shared/schema.ts\<close>

record BibleBook =
  b_id :: nat
  b_name :: string
  b_testament :: string
  b_chapters :: int
  b_order :: int

record BibleVerse =
  v_id :: nat
  v_book :: string
  v_chapter :: int
  v_verse :: int
  v_text :: string

record Highlight =
  h_id :: nat
  h_verseId :: string
  h_color :: string
  h_userId :: string

record Bookmark =
  m_id :: nat
  m_verseId :: string
  m_userId :: string

text \<open>The insert types omit \<open>id\<close>; \<open>userId\<close> has a default and is optional.\<close>

record InsertBibleBook =
  ib_name :: string
  ib_testament :: string
  ib_chapters :: int
  ib_order :: int

record InsertBibleVerse =
  iv_book :: string
  iv_chapter :: int
  iv_verse :: int
  iv_text :: string

record InsertHighlight =
  ih_verseId :: string
  ih_color :: string
  ih_userId :: "string option"

record InsertBookmark =
  im_verseId :: string
  im_userId :: "string option"

subsection \<open>The state of MemStorage\<close>

record MemStorage =
  books :: "(nat, BibleBook) jsmap"
  verses :: "(string, BibleVerse) jsmap"
  highlightsList :: "(nat, Highlight) jsmap"
  bookmarksList :: "(nat, Bookmark) jsmap"
  currentBookId :: nat
  currentVerseId :: nat
  currentHighlightId :: nat
  currentBookmarkId :: nat

text \<open>The field initialisers of the class, before the constructor body runs.\<close>

definition emptyStorage :: MemStorage where
  "emptyStorage = \<lparr>books = [], verses = [], highlightsList = [], bookmarksList = [],
     currentBookId = 1, currentVerseId = 1, currentHighlightId = 1, currentBookmarkId = 1\<rparr>"

subsection \<open>Highlights and bookmarks\<close>

text \<open>
  A default parameter \<open>userId = "default"\<close> replaces only a missing argument, while
  \<open>x || "default"\<close> also replaces the empty string.
\<close>

definition defaultParam :: "string option \<Rightarrow> string" where
  "defaultParam u = (case u of None \<Rightarrow> ''default'' | Some s \<Rightarrow> s)"

definition orDefault :: "string option \<Rightarrow> string" where
  "orDefault u = (case u of None \<Rightarrow> ''default'' | Some s \<Rightarrow> if s = [] then ''default'' else s)"

definition getHighlights :: "MemStorage \<Rightarrow> string option \<Rightarrow> Highlight list" where
  "getHighlights st userId =
     filter (\<lambda>highlight. h_userId highlight = defaultParam userId)
       (map_values (highlightsList st))"

definition createHighlight :: "MemStorage \<Rightarrow> InsertHighlight \<Rightarrow> Highlight \<times> MemStorage" where
  "createHighlight st highlight =
     (let newHighlight = \<lparr>h_id = currentHighlightId st,
                           h_verseId = ih_verseId highlight,
                           h_color = ih_color highlight,
                           h_userId = orDefault (ih_userId highlight)\<rparr>
      in (newHighlight,
          st\<lparr>currentHighlightId := currentHighlightId st + 1,
             highlightsList := map_set (h_id newHighlight) newHighlight (highlightsList st)\<rparr>))"

definition deleteHighlight :: "MemStorage \<Rightarrow> string \<Rightarrow> string option \<Rightarrow> MemStorage" where
  "deleteHighlight st verseId userId =
     (case find (\<lambda>h. h_verseId h = verseId \<and> h_userId h = defaultParam userId)
             (map_values (highlightsList st)) of
        Some highlight \<Rightarrow> st\<lparr>highlightsList := map_delete (h_id highlight) (highlightsList st)\<rparr>
      | None \<Rightarrow> st)"

definition getBookmarks :: "MemStorage \<Rightarrow> string option \<Rightarrow> Bookmark list" where
  "getBookmarks st userId =
     filter (\<lambda>bookmark. m_userId bookmark = defaultParam userId)
       (map_values (bookmarksList st))"

definition createBookmark :: "MemStorage \<Rightarrow> InsertBookmark \<Rightarrow> Bookmark \<times> MemStorage" where
  "createBookmark st bookmark =
     (let newBookmark = \<lparr>m_id = currentBookmarkId st,
                          m_verseId = im_verseId bookmark,
                          m_userId = orDefault (im_userId bookmark)\<rparr>
      in (newBookmark,
          st\<lparr>currentBookmarkId := currentBookmarkId st + 1,
             bookmarksList := map_set (m_id newBookmark) newBookmark (bookmarksList st)\<rparr>))"

definition deleteBookmark :: "MemStorage \<Rightarrow> string \<Rightarrow> string option \<Rightarrow> MemStorage" where
  "deleteBookmark st verseId userId =
     (case find (\<lambda>b. m_verseId b = verseId \<and> m_userId b = defaultParam userId)
             (map_values (bookmarksList st)) of
        Some bookmark \<Rightarrow> st\<lparr>bookmarksList := map_delete (m_id bookmark) (bookmarksList st)\<rparr>
      | None \<Rightarrow> st)"

subsection \<open>Strings\<close>

text \<open>
  \<open>toLowerCase\<close> on the code units up to U+00FF: the letters A to Z and the
  capital letters of Latin-1 (U+00C0 to U+00DE without the multiplication sign U+00D7)
  move up by 32; every other unit is kept.
\<close>

definition lowerChar :: "char \<Rightarrow> char" where
  "lowerChar c =
     (let n = (of_char c :: nat)
      in if (65 \<le> n \<and> n \<le> 90) \<or> (192 \<le> n \<and> n \<le> 222 \<and> n \<noteq> 215)
         then char_of (n + 32) else c)"

definition toLowerCase :: "string \<Rightarrow> string" where
  "toLowerCase s = map lowerChar s"

text \<open>
  White space and line terminators below U+0100: TAB, LF, VT, FF, CR, SP, NBSP.
  Both \<open>trim\<close> and the class \<open>\s\<close> of a regular expression use this set.
\<close>

definition isWhiteSpace :: "char \<Rightarrow> bool" where
  "isWhiteSpace c = (c \<in> set [CHR 0x09, CHR 0x0A, CHR 0x0B, CHR 0x0C, CHR 0x0D, CHR 0x20, CHR 0xA0])"

definition trim :: "string \<Rightarrow> string" where
  "trim s = rev (dropWhile isWhiteSpace (rev (dropWhile isWhiteSpace s)))"

definition isDigit :: "char \<Rightarrow> bool" where
  "isDigit c = (c \<in> set ''0123456789'')"

definition isAlpha :: "char \<Rightarrow> bool" where
  "isAlpha c = (c \<in> set ''abcdefghijklmnopqrstuvwxyzABCDEFGHIJKLMNOPQRSTUVWXYZ'')"

fun startsWith :: "string \<Rightarrow> string \<Rightarrow> bool" where
  "startsWith s [] = True"
| "startsWith [] (n # ns) = False"
| "startsWith (c # cs) (n # ns) = (c = n \<and> startsWith cs ns)"

text \<open>\<open>s.includes(n)\<close> of the source: \<open>n\<close> occurs in \<open>s\<close> at some position.\<close>

fun strIncludes :: "string \<Rightarrow> string \<Rightarrow> bool" where
  "strIncludes [] n = (n = [])"
| "strIncludes (c # cs) n = (startsWith (c # cs) n \<or> strIncludes cs n)"

text \<open>
  A Number that \<open>parseInt\<close> can return: a double with an integer value, an infinity or
  \<open>NaN\<close>. The chapter and verse numbers of the store are doubles with an integer value;
  the store keeps them as integers.
\<close>

datatype number = Finite int | PosInfinity | NegInfinity | NaN

text \<open>
  The double nearest to a natural number, ties to the even significand: \<open>excess n\<close> is
  the number of bits of \<open>n\<close> beyond the 53 bits of a significand, the bits dropped are
  rounded, and what does not fit the largest exponent (from \<open>2^1024 - 2^970\<close>) is
  \<open>None\<close>, an infinity.
\<close>

function excess :: "nat \<Rightarrow> nat" where
  "excess n = (if n < 2 ^ 53 then 0 else Suc (excess (n div 2)))"
  by pat_completeness auto
termination
  by (relation "measure (\<lambda>n. n)") auto

definition toDouble :: "nat \<Rightarrow> nat option" where
  "toDouble n =
     (let e = excess n;
          q = n div 2 ^ e;
          r = n mod 2 ^ e;
          q' = (if 2 ^ e < 2 * r \<or> (2 * r = 2 ^ e \<and> odd q) then q + 1 else q);
          m = q' * 2 ^ e
      in if m < 2 ^ 1024 then Some m else None)"

text \<open>
  \<open>parseInt(s, 10)\<close>: skip leading white space, read an optional sign, then the
  longest run of decimal digits; no digit gives \<open>NaN\<close>. The value of the digits is
  rounded to a double.
\<close>

definition digitVal :: "char \<Rightarrow> int" where
  "digitVal c = int (of_char c) - 48"

definition parseInt :: "string \<Rightarrow> number" where
  "parseInt s =
     (let s1 = dropWhile isWhiteSpace s;
          neg = (case s1 of [] \<Rightarrow> False | c # r \<Rightarrow> c = CHR ''-'');
          s2 = (case s1 of [] \<Rightarrow> [] | c # r \<Rightarrow> if c = CHR ''-'' \<or> c = CHR ''+'' then r else s1);
          ds = takeWhile isDigit s2
      in if ds = [] then NaN
         else (case toDouble (nat (foldl (\<lambda>a c. 10 * a + digitVal c) 0 ds)) of
                 Some m \<Rightarrow> Finite ((if neg then - 1 else 1) * int m)
               | None \<Rightarrow> if neg then NegInfinity else PosInfinity))"

text \<open>
  The decimal rendering of an integer inside a template literal. The source writes a
  number of magnitude \<open>10^21\<close> or more with an exponent; the model writes all its digits.
\<close>

definition digitChar :: "nat \<Rightarrow> char" where
  "digitChar n = ''0123456789'' ! n"

fun digitsOf :: "nat \<Rightarrow> string" where
  "digitsOf n = (if n < 10 then [digitChar n] else digitsOf (n div 10) @ [digitChar (n mod 10)])"

definition numberToString :: "int \<Rightarrow> string" where
  "numberToString i = (if i < 0 then CHR ''-'' # digitsOf (nat (- i)) else digitsOf (nat i))"

text \<open>The key \<open>`${book}:${chapter}:${verse}`\<close> of the verses map.\<close>

definition verseKey :: "string \<Rightarrow> int \<Rightarrow> int \<Rightarrow> string" where
  "verseKey book chapter verse =
     book @ '':'' @ numberToString chapter @ '':'' @ numberToString verse"

subsection \<open>The regular expression of searchVerses\<close>

text \<open>
  A backtracking matcher in continuation style: each combinator consumes a part of the
  input and hands the rest to the continuation; a greedy quantifier tries the longest
  repetition first and gives characters back one at a time when the continuation fails.
\<close>

fun reStar :: "(char \<Rightarrow> bool) \<Rightarrow> string \<Rightarrow> (string \<Rightarrow> 'a option) \<Rightarrow> 'a option" where
  "reStar p [] k = k []"
| "reStar p (c # cs) k =
     (if p c then (case reStar p cs k of Some r \<Rightarrow> Some r | None \<Rightarrow> k (c # cs))
      else k (c # cs))"

definition rePlus :: "(char \<Rightarrow> bool) \<Rightarrow> string \<Rightarrow> (string \<Rightarrow> 'a option) \<Rightarrow> 'a option" where
  "rePlus p s k = (case s of [] \<Rightarrow> None | c # cs \<Rightarrow> if p c then reStar p cs k else None)"

definition reOpt :: "(char \<Rightarrow> bool) \<Rightarrow> string \<Rightarrow> (string \<Rightarrow> 'a option) \<Rightarrow> 'a option" where
  "reOpt p s k =
     (case s of [] \<Rightarrow> k []
      | c # cs \<Rightarrow> if p c then (case k cs of Some r \<Rightarrow> Some r | None \<Rightarrow> k s) else k s)"

definition reChar :: "char \<Rightarrow> string \<Rightarrow> (string \<Rightarrow> 'a option) \<Rightarrow> 'a option" where
  "reChar ch s k = (case s of [] \<Rightarrow> None | c # cs \<Rightarrow> if c = ch then k cs else None)"

text \<open>The text consumed between two positions of the same input.\<close>

definition consumed :: "string \<Rightarrow> string \<Rightarrow> string" where
  "consumed before after = take (length before - length after) before"

text \<open>
  \<open>/^([1-3]?\s*[a-zA-Z\s]+)\s*(\d+):(\d+)$/\<close>, anchored at both ends; the result holds
  the three capture groups.
\<close>

definition verseRefPattern :: "string \<Rightarrow> (string \<times> string \<times> string) option" where
  "verseRefPattern s0 =
     reOpt (\<lambda>c. c \<in> set ''123'') s0 (\<lambda>s1.
     reStar isWhiteSpace s1 (\<lambda>s2.
     rePlus (\<lambda>c. isAlpha c \<or> isWhiteSpace c) s2 (\<lambda>s3.
     reStar isWhiteSpace s3 (\<lambda>s4.
     rePlus isDigit s4 (\<lambda>s5.
     reChar (CHR '':'') s5 (\<lambda>s6.
     rePlus isDigit s6 (\<lambda>s7.
       if s7 = [] then Some (consumed s0 s3, consumed s4 s5, consumed s6 s7) else None)))))))"

text \<open>
  The first capture group in words: at most one of the digits 1, 2, 3, then white space,
  then at least one letter or white space character.
\<close>

definition refName :: "string \<Rightarrow> bool" where
  "refName g =
     (\<exists>d w l. g = d @ w @ l \<and> length d \<le> 1 \<and> list_all (\<lambda>c. c \<in> set ''123'') d \<and>
              list_all isWhiteSpace w \<and> l \<noteq> [] \<and>
              list_all (\<lambda>c. isAlpha c \<or> isWhiteSpace c) l)"

text \<open>
  The part of the pattern after the first capture group, \<open>\s*(\d+):(\d+)$\<close>, run from
  the position \<open>s3\<close> of the input \<open>s0\<close>.
\<close>

definition refTail :: "string \<Rightarrow> string \<Rightarrow> (string \<times> string \<times> string) option" where
  "refTail s0 s3 =
     reStar isWhiteSpace s3 (\<lambda>s4.
     rePlus isDigit s4 (\<lambda>s5.
     reChar (CHR '':'') s5 (\<lambda>s6.
     rePlus isDigit s6 (\<lambda>s7.
       if s7 = [] then Some (consumed s0 s3, consumed s4 s5, consumed s6 s7) else None))))"

subsection \<open>Books and verses\<close>

definition getAllBooks :: "MemStorage \<Rightarrow> BibleBook list" where
  "getAllBooks st = sort_key b_order (map_values (books st))"

definition getBookByName :: "MemStorage \<Rightarrow> string \<Rightarrow> BibleBook option" where
  "getBookByName st name = find (\<lambda>book. b_name book = name) (map_values (books st))"

text \<open>
  The optional \<open>chapter\<close> is tested for truthiness: a missing chapter (\<open>None\<close>, which
  also stands for \<open>NaN\<close>) and the chapter 0 both switch the chapter filter off.
  \<open>Array.prototype.sort\<close> is stable.
\<close>

definition getVersesByBook :: "MemStorage \<Rightarrow> string \<Rightarrow> int option \<Rightarrow> BibleVerse list" where
  "getVersesByBook st book chapter =
     sort_key v_verse
       (filter (\<lambda>verse.
          if v_book verse \<noteq> book then False
          else if (case chapter of None \<Rightarrow> False
                   | Some c \<Rightarrow> c \<noteq> 0 \<and> v_chapter verse \<noteq> c) then False
          else True)
        (map_values (verses st)))"

definition getVerse :: "MemStorage \<Rightarrow> string \<Rightarrow> int \<Rightarrow> int \<Rightarrow> BibleVerse option" where
  "getVerse st book chapter verse = map_get (verses st) (verseKey book chapter verse)"

definition searchVerses :: "MemStorage \<Rightarrow> string \<Rightarrow> BibleVerse list" where
  "searchVerses st query =
     (let lowercaseQuery = trim (toLowerCase query)
      in case verseRefPattern lowercaseQuery of
           Some (bookName, chapterStr, verseStr) \<Rightarrow>
             (let chapter = parseInt chapterStr;
                  verse = parseInt verseStr;
                  cleanBookName = toLowerCase (trim bookName)
              in case find (\<lambda>v. strIncludes (toLowerCase (v_book v)) cleanBookName \<and>
                               Finite (v_chapter v) = chapter \<and>
                               Finite (v_verse v) = verse)
                        (map_values (verses st)) of
                   Some matchingVerse \<Rightarrow> [matchingVerse]
                 | None \<Rightarrow> [])
         | None \<Rightarrow>
             (let bookNameMatch =
                    filter (\<lambda>verse. strIncludes (toLowerCase (v_book verse)) lowercaseQuery)
                      (map_values (verses st))
              in if length bookNameMatch > 0 \<and> length lowercaseQuery > 2
                 then (let bookName = v_book (hd bookNameMatch)
                       in take 10 (filter (\<lambda>verse. v_book verse = bookName \<and> v_chapter verse = 1)
                                     (map_values (verses st))))
                 else filter (\<lambda>verse. strIncludes (toLowerCase (v_text verse)) lowercaseQuery \<or>
                                      strIncludes (toLowerCase (v_book verse)) lowercaseQuery)
                        (map_values (verses st))))"

subsection \<open>The loader\<close>

text \<open>
  A numeric field of a parsed entry: a number, or an object without a primitive value
  (such as \<open>{"toString": 0}\<close>), on which a comparison, \<open>Math.max\<close> and a template
  literal throw a TypeError.
\<close>

datatype field = Number int | Unconvertible

text \<open>
  One value of \<open>bibleData.verses\<close>: the ordinal of the book, its name, chapter, verse
  and text.
\<close>

record VerseEntry =
  e_book :: field
  e_book_name :: string
  e_chapter :: field
  e_verse :: field
  e_text :: string

text \<open>
  \<open>.reduce((max, v) => Math.max(max, v.chapter), 0)\<close>; \<open>None\<close> when \<open>Math.max\<close>
  throws.
\<close>

definition reduceMax :: "VerseEntry list \<Rightarrow> int option" where
  "reduceMax vs =
     foldl (\<lambda>mx v. case mx of None \<Rightarrow> None
                    | Some m \<Rightarrow> (case e_chapter v of Number c \<Rightarrow> Some (max m c)
                                 | Unconvertible \<Rightarrow> None))
       (Some 0) vs"

text \<open>
  The body of the \<open>forEach\<close> callback of \<open>initializeBibleData\<close>. It reads and
  writes the local \<open>bookMap\<close> and the store; \<open>allVerses\<close> is
  \<open>Object.values(bibleData.verses)\<close>, scanned again for the chapter count. The result
  is \<open>Inl\<close> of the store as it is when a TypeError is thrown (at the comparison of the
  ordinal, inside \<open>Math.max\<close>, or at the template literal of the key, which comes after
  \<open>currentVerseId++\<close>), and \<open>Inr\<close> of \<open>bookMap\<close> and the store when the body finishes.
\<close>

definition loadVerse ::
  "VerseEntry list \<Rightarrow> (string, BibleBook) jsmap \<times> MemStorage \<Rightarrow> VerseEntry
     \<Rightarrow> MemStorage + (string, BibleBook) jsmap \<times> MemStorage" where
  "loadVerse allVerses acc verse =
     (let bookMap = fst acc; st = snd acc;
          bookName = e_book_name verse;
          registered =
            (if \<not> map_has bookMap bookName then
               (case e_book verse of
                  Unconvertible \<Rightarrow> Inl st
                | Number book \<Rightarrow>
                    (let testament = (if book \<le> 39 then ''Old'' else ''New'')
                     in case reduceMax (filter (\<lambda>v. e_book_name v = bookName) allVerses) of
                          None \<Rightarrow> Inl st
                        | Some maxChapter \<Rightarrow>
                            (let newBook = \<lparr>b_id = currentBookId st, b_name = bookName,
                                            b_testament = testament, b_chapters = maxChapter,
                                            b_order = book\<rparr>
                             in Inr (map_set bookName newBook bookMap,
                                     st\<lparr>currentBookId := currentBookId st + 1,
                                        books := map_set (b_id newBook) newBook (books st)\<rparr>))))
             else Inr (bookMap, st))
      in case registered of
           Inl st' \<Rightarrow> Inl st'
         | Inr acc1 \<Rightarrow>
             (let st1 = snd acc1;
                  st2 = st1\<lparr>currentVerseId := currentVerseId st1 + 1\<rparr>
              in case e_chapter verse of
                   Unconvertible \<Rightarrow> Inl st2
                 | Number chapter \<Rightarrow>
                     (case e_verse verse of
                        Unconvertible \<Rightarrow> Inl st2
                      | Number vnum \<Rightarrow>
                          (let newVerse = \<lparr>v_id = currentVerseId st1, v_book = e_book_name verse,
                                           v_chapter = chapter, v_verse = vnum,
                                           v_text = e_text verse\<rparr>;
                               key = verseKey (e_book_name verse) chapter vnum
                           in Inr (fst acc1,
                                   st2\<lparr>verses := map_set key newVerse (verses st1)\<rparr>)))))"

text \<open>\<open>forEach\<close>: an exception of the callback ends the loop and leaves it.\<close>

fun loadVerses ::
  "VerseEntry list \<Rightarrow> (string, BibleBook) jsmap \<times> MemStorage \<Rightarrow> VerseEntry list
     \<Rightarrow> MemStorage + (string, BibleBook) jsmap \<times> MemStorage" where
  "loadVerses allVerses acc [] = Inr acc"
| "loadVerses allVerses acc (verse # rest) =
     (case loadVerse allVerses acc verse of
        Inl st \<Rightarrow> Inl st
      | Inr acc' \<Rightarrow> loadVerses allVerses acc' rest)"

definition booksData :: "InsertBibleBook list" where
  "booksData =
     [\<lparr>ib_name = ''Genesis'', ib_testament = ''Old'', ib_chapters = 50, ib_order = 1\<rparr>,
      \<lparr>ib_name = ''Matthew'', ib_testament = ''New'', ib_chapters = 28, ib_order = 40\<rparr>,
      \<lparr>ib_name = ''John'', ib_testament = ''New'', ib_chapters = 21, ib_order = 43\<rparr>]"

definition sampleVerses :: "InsertBibleVerse list" where
  "sampleVerses =
     [\<lparr>iv_book = ''Genesis'', iv_chapter = 1, iv_verse = 1,
       iv_text = ''In the beginning God created the heavens and the earth.''\<rparr>,
      \<lparr>iv_book = ''Matthew'', iv_chapter = 5, iv_verse = 3,
       iv_text = ''Blessed are the poor in spirit, for theirs is the kingdom of heaven.''\<rparr>,
      \<lparr>iv_book = ''John'', iv_chapter = 3, iv_verse = 16,
       iv_text = ''For God so loved the world that he gave his one and only Son, that whoever believes in him shall not perish but have eternal life.''\<rparr>]"

definition addSampleBook :: "MemStorage \<Rightarrow> InsertBibleBook \<Rightarrow> MemStorage" where
  "addSampleBook st book =
     (let newBook = \<lparr>b_id = currentBookId st, b_name = ib_name book,
                      b_testament = ib_testament book, b_chapters = ib_chapters book,
                      b_order = ib_order book\<rparr>
      in st\<lparr>currentBookId := currentBookId st + 1,
            books := map_set (b_id newBook) newBook (books st)\<rparr>)"

definition addSampleVerse :: "MemStorage \<Rightarrow> InsertBibleVerse \<Rightarrow> MemStorage" where
  "addSampleVerse st verse =
     (let newVerse = \<lparr>v_id = currentVerseId st, v_book = iv_book verse,
                       v_chapter = iv_chapter verse, v_verse = iv_verse verse,
                       v_text = iv_text verse\<rparr>;
          key = verseKey (iv_book verse) (iv_chapter verse) (iv_verse verse)
      in st\<lparr>currentVerseId := currentVerseId st + 1,
            verses := map_set key newVerse (verses st)\<rparr>)"

definition initializeSampleData :: "MemStorage \<Rightarrow> MemStorage" where
  "initializeSampleData st = foldl addSampleVerse (foldl addSampleBook st booksData) sampleVerses"

text \<open>
  The \<open>try\<close> block. The argument is what reading and parsing the data file gives:
  \<open>None\<close> when that throws before the loop writes anything (no file, no JSON, no
  \<open>verses\<close> object, a \<open>null\<close> among the values: the scan for the chapter count of
  the first entry meets it), \<open>Some\<close> of the values otherwise. \<open>Inl\<close> is the store with
  which the \<open>catch\<close> block is entered, \<open>Inr\<close> the store when the block finishes.
\<close>

definition tryBlock :: "MemStorage \<Rightarrow> VerseEntry list option \<Rightarrow> MemStorage + MemStorage" where
  "tryBlock st bibleData =
     (case bibleData of
        None \<Rightarrow> Inl st
      | Some allVerses \<Rightarrow>
          (case loadVerses allVerses ([], st) allVerses of
             Inl st' \<Rightarrow> Inl st'
           | Inr acc \<Rightarrow> Inr (snd acc)))"

text \<open>
  The \<open>catch\<close> block runs the fallback on the store as the exception left it: what the
  loop has written before stays.
\<close>

definition initializeBibleData :: "MemStorage \<Rightarrow> VerseEntry list option \<Rightarrow> MemStorage" where
  "initializeBibleData st bibleData =
     (case tryBlock st bibleData of
        Inr st' \<Rightarrow> st'
      | Inl st' \<Rightarrow> initializeSampleData st')"

definition newMemStorage :: "VerseEntry list option \<Rightarrow> MemStorage" where
  "newMemStorage bibleData = initializeBibleData emptyStorage bibleData"

subsection \<open>The public operations as a step function\<close>

datatype operation =
    GetAllBooks
  | GetBookByName string
  | GetVersesByBook string "int option"
  | GetVerse string int int
  | SearchVerses string
  | GetHighlights "string option"
  | CreateHighlight InsertHighlight
  | DeleteHighlight string "string option"
  | GetBookmarks "string option"
  | CreateBookmark InsertBookmark
  | DeleteBookmark string "string option"

text \<open>The store after a call; the six read accessors write nothing.\<close>

fun exec :: "MemStorage \<Rightarrow> operation \<Rightarrow> MemStorage" where
  "exec st (CreateHighlight h) = snd (createHighlight st h)"
| "exec st (DeleteHighlight verseId userId) = deleteHighlight st verseId userId"
| "exec st (CreateBookmark b) = snd (createBookmark st b)"
| "exec st (DeleteBookmark verseId userId) = deleteBookmark st verseId userId"
| "exec st _ = st"

definition run :: "MemStorage \<Rightarrow> operation list \<Rightarrow> MemStorage" where
  "run st ops = foldl exec st ops"

subsection \<open>Invariants of the highlight and bookmark maps\<close>

text \<open>
  Every entry is stored under the id of its value, below the counter of its kind.
\<close>

definition highlightsInv :: "MemStorage \<Rightarrow> bool" where
  "highlightsInv st =
     (distinct (map fst (highlightsList st)) \<and>
      list_all (\<lambda>e. fst e = h_id (snd e) \<and> fst e < currentHighlightId st) (highlightsList st))"

definition bookmarksInv :: "MemStorage \<Rightarrow> bool" where
  "bookmarksInv st =
     (distinct (map fst (bookmarksList st)) \<and>
      list_all (\<lambda>e. fst e = m_id (snd e) \<and> fst e < currentBookmarkId st) (bookmarksList st))"

subsection \<open>Example inputs\<close>

definition yellowJohn :: InsertHighlight where
  "yellowJohn = \<lparr>ih_verseId = ''John:3:16'', ih_color = ''yellow'', ih_userId = None\<rparr>"

definition markJohn :: InsertBookmark where
  "markJohn = \<lparr>im_verseId = ''John:3:16'', im_userId = None\<rparr>"

text \<open>
  A store reached from the constructor by highlighting and bookmarking John 3:16 twice each.
\<close>

definition twiceMarked :: MemStorage where
  "twiceMarked =
     snd (createBookmark (snd (createBookmark
       (snd (createHighlight (snd (createHighlight (newMemStorage None) yellowJohn)) yellowJohn))
       markJohn)) markJohn)"

text \<open>A store reached from the constructor in which John 3:16 is highlighted already.\<close>

definition onceHighlighted :: MemStorage where
  "onceHighlighted = snd (createHighlight (newMemStorage None) yellowJohn)"

text \<open>A data set in which two book names carry the same ordinal.\<close>

definition sharedOrdinal :: "VerseEntry list" where
  "sharedOrdinal =
     [\<lparr>e_book = Number 1, e_book_name = ''Genesis'', e_chapter = Number 1, e_verse = Number 1,
       e_text = ''In the beginning''\<rparr>,
      \<lparr>e_book = Number 1, e_book_name = ''Exodus'', e_chapter = Number 1, e_verse = Number 1,
       e_text = ''Now these are the names''\<rparr>]"

text \<open>A data set whose second entry has a verse number without a primitive value.\<close>

definition brokenSecond :: "VerseEntry list" where
  "brokenSecond =
     [\<lparr>e_book = Number 1, e_book_name = ''Genesis'', e_chapter = Number 1, e_verse = Number 1,
       e_text = ''In the beginning''\<rparr>,
      \<lparr>e_book = Number 1, e_book_name = ''Genesis'', e_chapter = Number 1, e_verse = Unconvertible,
       e_text = ''And the earth''\<rparr>]"

text \<open>A data set whose first entry has an ordinal without a primitive value.\<close>

definition brokenFirst :: "VerseEntry list" where
  "brokenFirst =
     [\<lparr>e_book = Unconvertible, e_book_name = ''Genesis'', e_chapter = Number 1, e_verse = Number 1,
       e_text = ''In the beginning''\<rparr>]"

text \<open>A data set of three entries for two books.\<close>

definition twoBooks :: "VerseEntry list" where
  "twoBooks =
     [\<lparr>e_book = Number 1, e_book_name = ''Genesis'', e_chapter = Number 1, e_verse = Number 1,
       e_text = ''In the beginning''\<rparr>,
      \<lparr>e_book = Number 43, e_book_name = ''John'', e_chapter = Number 3, e_verse = Number 16,
       e_text = ''For God so loved the world''\<rparr>,
      \<lparr>e_book = Number 1, e_book_name = ''Genesis'', e_chapter = Number 2, e_verse = Number 1,
       e_text = ''Thus the heavens''\<rparr>]"

text \<open>A data set with a chapter number of 54 bits.\<close>

definition bigChapter :: "VerseEntry list" where
  "bigChapter =
     [\<lparr>e_book = Number 43, e_book_name = ''John'', e_chapter = Number 9007199254740992,
       e_verse = Number 1, e_text = ''In the beginning was the Word''\<rparr>]"

subsection \<open>Invariant of the loader\<close>

text \<open>The state of the loop of \<open>initializeBibleData\<close> between two entries.\<close>

definition loadInv :: "VerseEntry list \<Rightarrow> (string, BibleBook) jsmap \<times> MemStorage \<Rightarrow> bool" where
  "loadInv allVerses acc =
     (list_all (\<lambda>e. fst e < currentBookId (snd acc)) (books (snd acc)) \<and>
      map (\<lambda>e. b_name (snd e)) (books (snd acc)) = map fst (fst acc) \<and>
      distinct (map fst (fst acc)) \<and>
      list_all (\<lambda>e. (b_testament (snd e) = ''Old'') = (b_order (snd e) \<le> 39) \<and>
                    list_ex (\<lambda>v. e_book_name v = b_name (snd e) \<and>
                                 e_book v = Number (b_order (snd e)))
                      allVerses)
        (books (snd acc)))"

text \<open>The store that an outcome of the loop carries.\<close>

definition storeOf :: "MemStorage + ('a \<times> MemStorage) \<Rightarrow> MemStorage" where
  "storeOf r = (case r of Inl st \<Rightarrow> st | Inr acc \<Rightarrow> snd acc)"

text \<open>Every registered Book has the testament of its order.\<close>

definition booksInv :: "MemStorage \<Rightarrow> bool" where
  "booksInv st =
     list_all (\<lambda>e. (b_testament (snd e) = ''Old'') = (b_order (snd e) \<le> 39)) (books st)"

subsection \<open>Invariant of the verses map\<close>

text \<open>Every verse is stored under the key made of its own book, chapter and verse.\<close>

definition versesInv :: "MemStorage \<Rightarrow> bool" where
  "versesInv st =
     (distinct (map fst (verses st)) \<and>
      list_all (\<lambda>e. fst e = verseKey (v_book (snd e)) (v_chapter (snd e)) (v_verse (snd e)))
        (verses st))"

section \<open>Properties\<close>

subsection \<open>Map and list lemmas\<close>

lemma map_set_fresh: "k \<notin> fst ` set m \<Longrightarrow> map_set k v m = m @ [(k, v)]"
  by (induction m) auto

lemma map_delete_notin: "k \<notin> fst ` set m \<Longrightarrow> map_delete k m = m"
  by (induction m) auto

lemma map_delete_split:
  "k \<notin> fst ` set pre \<Longrightarrow> map_delete k (pre @ (k, v) # post) = pre @ post"
  by (induction pre) auto

lemma map_delete_subset: "set (map_delete k m) \<subseteq> set m"
  by (induction m) (auto split: if_splits)

lemma map_delete_distinct: "distinct (map fst m) \<Longrightarrow> distinct (map fst (map_delete k m))"
proof (induction m)
  case Nil
  then show ?case by simp
next
  case (Cons e m)
  have "fst ` set (map_delete k m) \<subseteq> fst ` set m"
    using map_delete_subset [of k m] by blast
  with Cons show ?case by (cases e) auto
qed

lemma find_None_set: "find P xs = None \<longleftrightarrow> (\<forall>x\<in>set xs. \<not> P x)"
  by (induction xs) auto

lemma find_split:
  "\<forall>x\<in>set pre. \<not> P x \<Longrightarrow> P h \<Longrightarrow> find P (pre @ h # post) = Some h"
  by (induction pre) auto

lemma map_set_keys: "fst ` set (map_set k v m) = insert k (fst ` set m)"
proof (induction m)
  case Nil
  show ?case by simp
next
  case (Cons e m)
  obtain k' v' where e: "e = (k', v')" by (cases e)
  show ?case
  proof (cases "k' = k")
    case True
    with e show ?thesis by simp
  next
    case False
    with e Cons show ?thesis by (simp add: insert_commute)
  qed
qed

lemma map_set_distinct: "distinct (map fst m) \<Longrightarrow> distinct (map fst (map_set k v m))"
proof (induction m)
  case Nil
  show ?case by simp
next
  case (Cons e m)
  obtain k' v' where e: "e = (k', v')" by (cases e)
  show ?case
  proof (cases "k' = k")
    case True
    with Cons.prems e show ?thesis by simp
  next
    case False
    from Cons have "distinct (map fst (map_set k v m))" by simp
    moreover from Cons.prems e False have "k' \<notin> fst ` set (map_set k v m)"
      by (simp add: map_set_keys)
    ultimately show ?thesis using e False by simp
  qed
qed

lemma map_set_all: "list_all P m \<Longrightarrow> P (k, v) \<Longrightarrow> list_all P (map_set k v m)"
  by (induction m) auto

subsection \<open>Frame and counters of the public operations\<close>

lemma exec_books: "books (exec st op) = books st"
  by (cases op) (auto simp: createHighlight_def deleteHighlight_def createBookmark_def
      deleteBookmark_def Let_def split: option.splits)

lemma exec_verses: "verses (exec st op) = verses st"
  by (cases op) (auto simp: createHighlight_def deleteHighlight_def createBookmark_def
      deleteBookmark_def Let_def split: option.splits)

lemma exec_counter_h: "currentHighlightId st \<le> currentHighlightId (exec st op)"
  by (cases op) (auto simp: createHighlight_def deleteHighlight_def createBookmark_def
      deleteBookmark_def Let_def split: option.splits)

lemma exec_counter_m: "currentBookmarkId st \<le> currentBookmarkId (exec st op)"
  by (cases op) (auto simp: createHighlight_def deleteHighlight_def createBookmark_def
      deleteBookmark_def Let_def split: option.splits)

lemma run_counter_h: "currentHighlightId st \<le> currentHighlightId (run st ops)"
  unfolding run_def
proof (induction ops arbitrary: st)
  case Nil
  show ?case by simp
next
  case (Cons op ops)
  have "currentHighlightId st \<le> currentHighlightId (exec st op)" by (rule exec_counter_h)
  also have "\<dots> \<le> currentHighlightId (foldl exec (exec st op) ops)" by (rule Cons.IH)
  finally show ?case by simp
qed

lemma run_counter_m: "currentBookmarkId st \<le> currentBookmarkId (run st ops)"
  unfolding run_def
proof (induction ops arbitrary: st)
  case Nil
  show ?case by simp
next
  case (Cons op ops)
  have "currentBookmarkId st \<le> currentBookmarkId (exec st op)" by (rule exec_counter_m)
  also have "\<dots> \<le> currentBookmarkId (foldl exec (exec st op) ops)" by (rule Cons.IH)
  finally show ?case by simp
qed

text \<open>
  C8: each create operation hands out the current value of the counter of its kind and
  moves the counter up by one, and no public operation moves a counter down. So for two
  creations of the same kind, with any sequence of public operations (creations and
  deletions of either kind, reads) between them, the id of the second is strictly greater
  than the id of the first: ids are distinct, increasing and never handed out again.
\<close>

theorem create_ids_increase:
  "h_id (fst (createHighlight st a)) <
     h_id (fst (createHighlight (run (snd (createHighlight st a)) ops) b)) \<and>
   m_id (fst (createBookmark st c)) <
     m_id (fst (createBookmark (run (snd (createBookmark st c)) ops) d)) \<and>
   h_id (fst (createHighlight st a)) = currentHighlightId st \<and>
   currentHighlightId (snd (createHighlight st a)) = currentHighlightId st + 1 \<and>
   m_id (fst (createBookmark st c)) = currentBookmarkId st \<and>
   currentBookmarkId (snd (createBookmark st c)) = currentBookmarkId st + 1 \<and>
   currentHighlightId st \<le> currentHighlightId (run st ops) \<and>
   currentBookmarkId st \<le> currentBookmarkId (run st ops)"
proof -
  have h: "currentHighlightId st + 1 \<le> currentHighlightId (run (snd (createHighlight st a)) ops)"
    using run_counter_h [of "snd (createHighlight st a)" ops]
    by (simp add: createHighlight_def Let_def)
  have m: "currentBookmarkId st + 1 \<le> currentBookmarkId (run (snd (createBookmark st c)) ops)"
    using run_counter_m [of "snd (createBookmark st c)" ops]
    by (simp add: createBookmark_def Let_def)
  from h m show ?thesis
    using run_counter_h [of st ops] run_counter_m [of st ops]
    by (simp add: createHighlight_def createBookmark_def Let_def)
qed

lemma run_books: "books (run st ops) = books st"
  unfolding run_def by (induction ops arbitrary: st) (simp_all add: exec_books)

lemma run_verses: "verses (run st ops) = verses st"
  unfolding run_def by (induction ops arbitrary: st) (simp_all add: exec_verses)

lemma createHighlight_frame:
  "bookmarksList (snd (createHighlight st h)) = bookmarksList st"
  by (simp add: createHighlight_def Let_def)

lemma deleteHighlight_frame:
  "bookmarksList (deleteHighlight st verseId userId) = bookmarksList st"
  by (simp add: deleteHighlight_def split: option.splits)

lemma createBookmark_frame:
  "highlightsList (snd (createBookmark st b)) = highlightsList st"
  by (simp add: createBookmark_def Let_def)

lemma deleteBookmark_frame:
  "highlightsList (deleteBookmark st verseId userId) = highlightsList st"
  by (simp add: deleteBookmark_def split: option.splits)

text \<open>
  C10: no public operation of the store writes the books map or the verses map, after
  one call or after any sequence of calls; creating or deleting a highlight leaves the
  bookmarks map as it was, and creating or deleting a bookmark leaves the highlights map
  as it was.
\<close>

theorem frame_books_verses:
  "books (exec st op) = books st \<and> verses (exec st op) = verses st \<and>
   books (run st ops) = books st \<and> verses (run st ops) = verses st \<and>
   bookmarksList (snd (createHighlight st h)) = bookmarksList st \<and>
   bookmarksList (deleteHighlight st verseId userId) = bookmarksList st \<and>
   highlightsList (snd (createBookmark st b)) = highlightsList st \<and>
   highlightsList (deleteBookmark st verseId userId) = highlightsList st"
  using exec_books [of st op] exec_verses [of st op] run_books [of st ops] run_verses [of st ops]
    createHighlight_frame [of st h] deleteHighlight_frame [of st verseId userId]
    createBookmark_frame [of st b] deleteBookmark_frame [of st verseId userId]
  by simp

subsection \<open>The invariants hold in every reachable store\<close>

lemma loadVerse_highlights:
  "highlightsList (storeOf (loadVerse vs acc v)) = highlightsList (snd acc) \<and>
   bookmarksList (storeOf (loadVerse vs acc v)) = bookmarksList (snd acc) \<and>
   currentHighlightId (storeOf (loadVerse vs acc v)) = currentHighlightId (snd acc) \<and>
   currentBookmarkId (storeOf (loadVerse vs acc v)) = currentBookmarkId (snd acc)"
  by (simp add: loadVerse_def storeOf_def Let_def split: field.splits option.splits)

lemma storeOf_loadVerses:
  "storeOf (loadVerses vs acc []) = snd acc"
  "storeOf (loadVerses vs acc (v # rest)) =
     (case loadVerse vs acc v of
        Inl st \<Rightarrow> st
      | Inr acc' \<Rightarrow> storeOf (loadVerses vs acc' rest))"
  by (simp_all add: storeOf_def split: sum.splits)

lemma loadVerses_highlights:
  "highlightsList (storeOf (loadVerses vs acc xs)) = highlightsList (snd acc) \<and>
   bookmarksList (storeOf (loadVerses vs acc xs)) = bookmarksList (snd acc) \<and>
   currentHighlightId (storeOf (loadVerses vs acc xs)) = currentHighlightId (snd acc) \<and>
   currentBookmarkId (storeOf (loadVerses vs acc xs)) = currentBookmarkId (snd acc)"
proof (induction xs arbitrary: acc)
  case Nil
  show ?case by (simp add: storeOf_def)
next
  case (Cons v rest)
  show ?case
  proof (cases "loadVerse vs acc v")
    case (Inl st)
    with loadVerse_highlights [of vs acc v] show ?thesis
      by (simp add: storeOf_loadVerses storeOf_def)
  next
    case (Inr acc')
    with loadVerse_highlights [of vs acc v] Cons.IH [of acc'] show ?thesis
      by (simp add: storeOf_loadVerses storeOf_def)
  qed
qed

lemma initializeSampleData_highlights:
  "highlightsList (initializeSampleData st) = highlightsList st \<and>
   bookmarksList (initializeSampleData st) = bookmarksList st \<and>
   currentHighlightId (initializeSampleData st) = currentHighlightId st \<and>
   currentBookmarkId (initializeSampleData st) = currentBookmarkId st"
  by (simp add: initializeSampleData_def booksData_def sampleVerses_def
      addSampleBook_def addSampleVerse_def Let_def)

text \<open>The constructor in terms of the outcome of the loop.\<close>

lemma newMemStorage_Some:
  "newMemStorage (Some vs) =
     (case loadVerses vs ([], emptyStorage) vs of
        Inl st \<Rightarrow> initializeSampleData st
      | Inr acc \<Rightarrow> snd acc)"
  by (simp add: newMemStorage_def initializeBibleData_def tryBlock_def split: sum.splits)

lemma newMemStorage_None: "newMemStorage None = initializeSampleData emptyStorage"
  by (simp add: newMemStorage_def initializeBibleData_def tryBlock_def)

lemma newMemStorage_highlights:
  "highlightsList (newMemStorage d) = [] \<and> bookmarksList (newMemStorage d) = []"
proof (cases d)
  case None
  then show ?thesis
    by (simp add: newMemStorage_None initializeSampleData_highlights emptyStorage_def)
next
  case (Some vs)
  from loadVerses_highlights [of vs "([], emptyStorage)" vs]
  have "highlightsList (storeOf (loadVerses vs ([], emptyStorage) vs)) = [] \<and>
        bookmarksList (storeOf (loadVerses vs ([], emptyStorage) vs)) = []"
    by (simp add: emptyStorage_def)
  then show ?thesis
    unfolding Some newMemStorage_Some
    by (cases "loadVerses vs ([], emptyStorage) vs")
      (simp_all add: storeOf_def initializeSampleData_highlights)
qed

lemma highlightsInv_new: "highlightsInv (newMemStorage d)"
  by (simp add: highlightsInv_def newMemStorage_highlights)

lemma bookmarksInv_new: "bookmarksInv (newMemStorage d)"
  by (simp add: bookmarksInv_def newMemStorage_highlights)

lemma map_set_fresh_inv:
  assumes "distinct (map fst m)" "list_all (\<lambda>e. fst e = f (snd e) \<and> fst e < n) m" "f v = n"
  shows "distinct (map fst (map_set n v m)) \<and>
         list_all (\<lambda>e. fst e = f (snd e) \<and> fst e < Suc n) (map_set n v m)"
proof -
  have fresh: "n \<notin> fst ` set m"
    using assms(2) by (auto simp: list_all_iff)
  then have eq: "map_set n v m = m @ [(n, v)]" by (rule map_set_fresh)
  show ?thesis
    using assms fresh unfolding eq by (auto simp: list_all_iff)
qed

lemma map_delete_inv:
  assumes "distinct (map fst m)" "list_all P m"
  shows "distinct (map fst (map_delete k m)) \<and> list_all P (map_delete k m)"
  using assms map_delete_distinct [of m k] map_delete_subset [of k m]
  by (auto simp: list_all_iff)

lemma createHighlight_inv: "highlightsInv st \<Longrightarrow> highlightsInv (snd (createHighlight st h))"
  using map_set_fresh_inv [of "highlightsList st" h_id "currentHighlightId st"]
  by (simp add: highlightsInv_def createHighlight_def Let_def)

lemma deleteHighlight_inv:
  assumes "highlightsInv st"
  shows "highlightsInv (deleteHighlight st verseId userId)"
proof (cases "find (\<lambda>h. h_verseId h = verseId \<and> h_userId h = defaultParam userId)
                (map_values (highlightsList st))")
  case None
  with assms show ?thesis by (simp add: deleteHighlight_def)
next
  case (Some x)
  from assms have d: "distinct (map fst (highlightsList st))"
    and l: "list_all (\<lambda>e. fst e = h_id (snd e) \<and> fst e < currentHighlightId st) (highlightsList st)"
    by (simp_all add: highlightsInv_def)
  from map_delete_inv [OF d l, of "h_id x"] Some
  show ?thesis by (simp add: highlightsInv_def deleteHighlight_def)
qed

lemma createBookmark_inv: "bookmarksInv st \<Longrightarrow> bookmarksInv (snd (createBookmark st b))"
  using map_set_fresh_inv [of "bookmarksList st" m_id "currentBookmarkId st"]
  by (simp add: bookmarksInv_def createBookmark_def Let_def)

lemma deleteBookmark_inv:
  assumes "bookmarksInv st"
  shows "bookmarksInv (deleteBookmark st verseId userId)"
proof (cases "find (\<lambda>b. m_verseId b = verseId \<and> m_userId b = defaultParam userId)
                (map_values (bookmarksList st))")
  case None
  with assms show ?thesis by (simp add: deleteBookmark_def)
next
  case (Some x)
  from assms have d: "distinct (map fst (bookmarksList st))"
    and l: "list_all (\<lambda>e. fst e = m_id (snd e) \<and> fst e < currentBookmarkId st) (bookmarksList st)"
    by (simp_all add: bookmarksInv_def)
  from map_delete_inv [OF d l, of "m_id x"] Some
  show ?thesis by (simp add: bookmarksInv_def deleteBookmark_def)
qed

lemma highlight_ops_bookmarksInv:
  "bookmarksInv (snd (createHighlight st h)) = bookmarksInv st"
  "bookmarksInv (deleteHighlight st verseId userId) = bookmarksInv st"
  by (simp_all add: bookmarksInv_def createHighlight_def deleteHighlight_def Let_def
      split: option.splits)

lemma bookmark_ops_highlightsInv:
  "highlightsInv (snd (createBookmark st b)) = highlightsInv st"
  "highlightsInv (deleteBookmark st verseId userId) = highlightsInv st"
  by (simp_all add: highlightsInv_def createBookmark_def deleteBookmark_def Let_def
      split: option.splits)

lemma exec_inv:
  assumes "highlightsInv st" "bookmarksInv st"
  shows "highlightsInv (exec st op) \<and> bookmarksInv (exec st op)"
  using assms
  by (cases op)
    (simp_all add: createHighlight_inv deleteHighlight_inv createBookmark_inv
      deleteBookmark_inv highlight_ops_bookmarksInv bookmark_ops_highlightsInv)

lemma run_inv:
  "highlightsInv st \<Longrightarrow> bookmarksInv st \<Longrightarrow>
     highlightsInv (run st ops) \<and> bookmarksInv (run st ops)"
  unfolding run_def
proof (induction ops arbitrary: st)
  case Nil
  then show ?case by simp
next
  case (Cons op ops)
  from exec_inv [OF Cons.prems] Cons.IH [of "exec st op"] show ?case by simp
qed

lemma reachable_inv:
  "highlightsInv (run (newMemStorage d) ops) \<and> bookmarksInv (run (newMemStorage d) ops)"
  by (rule run_inv [OF highlightsInv_new bookmarksInv_new])

subsection \<open>Deleting highlights and bookmarks\<close>

lemma map_delete_first:
  assumes "distinct (map fst (pre @ e # post))"
  shows "map_delete (fst e) (pre @ e # post) = pre @ post"
proof -
  from assms have "fst e \<notin> fst ` set pre" by auto
  from map_delete_split [OF this, of "snd e" post] show ?thesis by simp
qed

lemma deleteHighlight_none:
  assumes "\<forall>h\<in>set (map_values (highlightsList st)).
             \<not> (h_verseId h = verseId \<and> h_userId h = defaultParam userId)"
  shows "deleteHighlight st verseId userId = st"
  using assms by (simp add: deleteHighlight_def find_None_set [THEN iffD2])

lemma deleteHighlight_first:
  assumes inv: "highlightsInv st"
    and split: "highlightsList st = pre @ e # post"
    and pre: "\<forall>x\<in>set pre. \<not> (h_verseId (snd x) = verseId \<and> h_userId (snd x) = defaultParam userId)"
    and e: "h_verseId (snd e) = verseId \<and> h_userId (snd e) = defaultParam userId"
  shows "deleteHighlight st verseId userId = st\<lparr>highlightsList := pre @ post\<rparr>"
proof -
  let ?P = "\<lambda>h. h_verseId h = verseId \<and> h_userId h = defaultParam userId"
  have "find ?P (map snd pre @ snd e # map snd post) = Some (snd e)"
    using pre e by (intro find_split) auto
  then have f: "find ?P (map_values (highlightsList st)) = Some (snd e)"
    by (simp add: split map_values_def)
  from inv have key: "fst e = h_id (snd e)"
    by (simp add: highlightsInv_def split)
  from inv have "distinct (map fst (highlightsList st))"
    by (simp add: highlightsInv_def)
  then have "distinct (map fst (pre @ e # post))"
    by (simp only: split)
  from map_delete_first [OF this] have "map_delete (h_id (snd e)) (highlightsList st) = pre @ post"
    by (simp add: key split)
  with f show ?thesis by (simp add: deleteHighlight_def)
qed

lemma deleteBookmark_none:
  assumes "\<forall>b\<in>set (map_values (bookmarksList st)).
             \<not> (m_verseId b = verseId \<and> m_userId b = defaultParam userId)"
  shows "deleteBookmark st verseId userId = st"
  using assms by (simp add: deleteBookmark_def find_None_set [THEN iffD2])

lemma deleteBookmark_first:
  assumes inv: "bookmarksInv st"
    and split: "bookmarksList st = pre @ e # post"
    and pre: "\<forall>x\<in>set pre. \<not> (m_verseId (snd x) = verseId \<and> m_userId (snd x) = defaultParam userId)"
    and e: "m_verseId (snd e) = verseId \<and> m_userId (snd e) = defaultParam userId"
  shows "deleteBookmark st verseId userId = st\<lparr>bookmarksList := pre @ post\<rparr>"
proof -
  let ?P = "\<lambda>b. m_verseId b = verseId \<and> m_userId b = defaultParam userId"
  have "find ?P (map snd pre @ snd e # map snd post) = Some (snd e)"
    using pre e by (intro find_split) auto
  then have f: "find ?P (map_values (bookmarksList st)) = Some (snd e)"
    by (simp add: split map_values_def)
  from inv have key: "fst e = m_id (snd e)"
    by (simp add: bookmarksInv_def split)
  from inv have "distinct (map fst (bookmarksList st))"
    by (simp add: bookmarksInv_def)
  then have "distinct (map fst (pre @ e # post))"
    by (simp only: split)
  from map_delete_first [OF this] have "map_delete (m_id (snd e)) (bookmarksList st) = pre @ post"
    by (simp add: key split)
  with f show ?thesis by (simp add: deleteBookmark_def)
qed

text \<open>
  C7: in a store that satisfies the invariants (every store reached from the constructor
  does), \<open>deleteHighlight\<close> returns the store unchanged when no stored highlight has
  the given verseId and userId; when the highlights map splits into entries without a
  match, a first matching entry and the rest, the call removes that entry and nothing
  else. The same holds for \<open>deleteBookmark\<close>. The model has no error result: the
  source has no statement that throws on these paths.
\<close>

theorem delete_first_match:
  assumes "highlightsInv st" and "bookmarksInv st"
  shows
    "((\<forall>h\<in>set (map_values (highlightsList st)).
         \<not> (h_verseId h = verseId \<and> h_userId h = defaultParam userId))
        \<longrightarrow> deleteHighlight st verseId userId = st) \<and>
     (highlightsList st = pre @ e # post \<and>
      (\<forall>x\<in>set pre. \<not> (h_verseId (snd x) = verseId \<and> h_userId (snd x) = defaultParam userId)) \<and>
      h_verseId (snd e) = verseId \<and> h_userId (snd e) = defaultParam userId
        \<longrightarrow> deleteHighlight st verseId userId = st\<lparr>highlightsList := pre @ post\<rparr>) \<and>
     ((\<forall>b\<in>set (map_values (bookmarksList st)).
         \<not> (m_verseId b = verseId \<and> m_userId b = defaultParam userId))
        \<longrightarrow> deleteBookmark st verseId userId = st) \<and>
     (bookmarksList st = pre' @ e' # post' \<and>
      (\<forall>x\<in>set pre'. \<not> (m_verseId (snd x) = verseId \<and> m_userId (snd x) = defaultParam userId)) \<and>
      m_verseId (snd e') = verseId \<and> m_userId (snd e') = defaultParam userId
        \<longrightarrow> deleteBookmark st verseId userId = st\<lparr>bookmarksList := pre' @ post'\<rparr>)"
  using assms deleteHighlight_none [of st verseId userId]
    deleteHighlight_first [of st pre e post verseId userId]
    deleteBookmark_none [of st verseId userId]
    deleteBookmark_first [of st pre' e' post' verseId userId]
  by blast

lemma twiceMarked_eval:
  "highlightsList twiceMarked =
     [(1, \<lparr>h_id = 1, h_verseId = ''John:3:16'', h_color = ''yellow'', h_userId = ''default''\<rparr>),
      (2, \<lparr>h_id = 2, h_verseId = ''John:3:16'', h_color = ''yellow'', h_userId = ''default''\<rparr>)]"
  "bookmarksList twiceMarked =
     [(1, \<lparr>m_id = 1, m_verseId = ''John:3:16'', m_userId = ''default''\<rparr>),
      (2, \<lparr>m_id = 2, m_verseId = ''John:3:16'', m_userId = ''default''\<rparr>)]"
  "currentHighlightId twiceMarked = 3"
  "currentBookmarkId twiceMarked = 3"
  by (simp_all add: twiceMarked_def createBookmark_def createHighlight_def Let_def
      newMemStorage_highlights yellowJohn_def markJohn_def orDefault_def
      newMemStorage_def initializeBibleData_def tryBlock_def initializeSampleData_highlights emptyStorage_def)

theorem delete_first_match_witness:
  "highlightsInv twiceMarked \<and> bookmarksInv twiceMarked \<and>
   deleteHighlight twiceMarked ''Genesis:1:1'' None = twiceMarked \<and>
   map h_id (map_values (highlightsList (deleteHighlight twiceMarked ''John:3:16'' None))) = [2] \<and>
   deleteBookmark twiceMarked ''Genesis:1:1'' None = twiceMarked \<and>
   map m_id (map_values (bookmarksList (deleteBookmark twiceMarked ''John:3:16'' None))) = [2]"
proof -
  have hi: "highlightsInv twiceMarked" and bi: "bookmarksInv twiceMarked"
    by (simp_all add: highlightsInv_def bookmarksInv_def twiceMarked_eval)
  note none = delete_first_match [OF hi bi, of "''Genesis:1:1''" None]
  note first = delete_first_match [OF hi bi, of "''John:3:16''" None "[]"
      "(1, \<lparr>h_id = 1, h_verseId = ''John:3:16'', h_color = ''yellow'', h_userId = ''default''\<rparr>)"
      "[(2, \<lparr>h_id = 2, h_verseId = ''John:3:16'', h_color = ''yellow'', h_userId = ''default''\<rparr>)]"
      "[]" "(1, \<lparr>m_id = 1, m_verseId = ''John:3:16'', m_userId = ''default''\<rparr>)"
      "[(2, \<lparr>m_id = 2, m_verseId = ''John:3:16'', m_userId = ''default''\<rparr>)]"]
  from none have n1: "deleteHighlight twiceMarked ''Genesis:1:1'' None = twiceMarked"
    and n2: "deleteBookmark twiceMarked ''Genesis:1:1'' None = twiceMarked"
    by (simp_all add: twiceMarked_eval map_values_def defaultParam_def)
  from first have
    f1: "deleteHighlight twiceMarked ''John:3:16'' None = twiceMarked\<lparr>highlightsList :=
          [(2, \<lparr>h_id = 2, h_verseId = ''John:3:16'', h_color = ''yellow'', h_userId = ''default''\<rparr>)]\<rparr>"
    and f2: "deleteBookmark twiceMarked ''John:3:16'' None = twiceMarked\<lparr>bookmarksList :=
          [(2, \<lparr>m_id = 2, m_verseId = ''John:3:16'', m_userId = ''default''\<rparr>)]\<rparr>"
    by (simp_all add: twiceMarked_eval defaultParam_def)
  show ?thesis
    using hi bi n1 n2 by (simp add: f1 f2 map_values_def)
qed

subsection \<open>Creating and deleting a highlight\<close>

lemma createHighlight_append:
  assumes "highlightsInv st"
  shows "highlightsList (snd (createHighlight st h)) =
           highlightsList st @ [(currentHighlightId st, fst (createHighlight st h))]"
proof -
  from assms have "currentHighlightId st \<notin> fst ` set (highlightsList st)"
    by (auto simp: highlightsInv_def list_all_iff)
  from map_set_fresh [OF this] show ?thesis
    by (simp add: createHighlight_def Let_def)
qed

lemma createHighlight_fields:
  "h_id (fst (createHighlight st h)) = currentHighlightId st"
  "h_verseId (fst (createHighlight st h)) = ih_verseId h"
  "h_color (fst (createHighlight st h)) = ih_color h"
  "h_userId (fst (createHighlight st h)) = orDefault (ih_userId h)"
  by (simp_all add: createHighlight_def Let_def)

lemma onceHighlighted_eval:
  "highlightsList onceHighlighted =
     [(1, \<lparr>h_id = 1, h_verseId = ''John:3:16'', h_color = ''yellow'', h_userId = ''default''\<rparr>)]"
  "currentHighlightId onceHighlighted = 2"
  by (simp_all add: onceHighlighted_def createHighlight_def Let_def
      newMemStorage_highlights yellowJohn_def orDefault_def
      newMemStorage_def initializeBibleData_def tryBlock_def initializeSampleData_highlights emptyStorage_def)

text \<open>
  C6, as stated, fails in a store that holds a highlight of John 3:16 for the default
  user already: the second \<open>createHighlight\<close> appends a duplicate, and
  \<open>deleteHighlight\<close> removes the first match, which is the older entry; the created
  highlight is still listed afterwards.
\<close>

theorem highlight_roundtrip_counterexample:
  "fst (createHighlight onceHighlighted yellowJohn)
     \<in> set (getHighlights (snd (createHighlight onceHighlighted yellowJohn)) None) \<and>
   fst (createHighlight onceHighlighted yellowJohn)
     \<in> set (getHighlights
         (deleteHighlight (snd (createHighlight onceHighlighted yellowJohn)) ''John:3:16'' None)
         None) \<and>
   h_verseId (fst (createHighlight onceHighlighted yellowJohn)) = ''John:3:16'' \<and>
   h_userId (fst (createHighlight onceHighlighted yellowJohn)) = ''default''"
  by (simp add: createHighlight_def deleteHighlight_def getHighlights_def Let_def
      onceHighlighted_eval yellowJohn_def orDefault_def defaultParam_def map_values_def)

text \<open>
  C6, amended: in a store that satisfies the invariant and holds no highlight with verseId
  "John:3:16" and userId "default" (the freshly constructed store is one),
  \<open>createHighlight\<close> of John 3:16 in yellow without a userId is listed by
  \<open>getHighlights()\<close> with userId "default"; after \<open>deleteHighlight("John:3:16")\<close>
  \<open>getHighlights()\<close> lists no highlight of that verseId, and the highlights map is
  what it was before the creation.
\<close>

theorem highlight_roundtrip:
  assumes inv: "highlightsInv st"
    and fresh: "\<forall>x\<in>set (map_values (highlightsList st)).
                  \<not> (h_verseId x = ''John:3:16'' \<and> h_userId x = ''default'')"
  shows
    "fst (createHighlight st yellowJohn)
       \<in> set (getHighlights (snd (createHighlight st yellowJohn)) None) \<and>
     h_userId (fst (createHighlight st yellowJohn)) = ''default'' \<and>
     (\<forall>x\<in>set (getHighlights
         (deleteHighlight (snd (createHighlight st yellowJohn)) ''John:3:16'' None) None).
        h_verseId x \<noteq> ''John:3:16'') \<and>
     highlightsList (deleteHighlight (snd (createHighlight st yellowJohn)) ''John:3:16'' None)
       = highlightsList st"
proof -
  let ?new = "fst (createHighlight st yellowJohn)"
  let ?st1 = "snd (createHighlight st yellowJohn)"
  have user: "h_userId ?new = ''default''" and verse: "h_verseId ?new = ''John:3:16''"
    by (simp_all add: createHighlight_fields yellowJohn_def orDefault_def)
  have app: "highlightsList ?st1 = highlightsList st @ [(currentHighlightId st, ?new)]"
    by (rule createHighlight_append [OF inv])
  have incl: "?new \<in> set (getHighlights ?st1 None)"
    by (simp add: getHighlights_def app map_values_def user defaultParam_def)
  have inv1: "highlightsInv ?st1" by (rule createHighlight_inv [OF inv])
  have pre: "\<forall>x\<in>set (highlightsList st).
               \<not> (h_verseId (snd x) = ''John:3:16'' \<and> h_userId (snd x) = defaultParam None)"
    using fresh by (simp add: map_values_def defaultParam_def)
  have del: "deleteHighlight ?st1 ''John:3:16'' None = ?st1\<lparr>highlightsList := highlightsList st @ []\<rparr>"
    by (rule deleteHighlight_first [OF inv1 app pre])
      (simp add: user verse defaultParam_def)
  have after: "highlightsList (deleteHighlight ?st1 ''John:3:16'' None) = highlightsList st"
    by (simp add: del)
  have gone: "\<forall>x\<in>set (getHighlights (deleteHighlight ?st1 ''John:3:16'' None) None).
                h_verseId x \<noteq> ''John:3:16''"
    using fresh by (auto simp: getHighlights_def after defaultParam_def)
  from incl user gone after show ?thesis by simp
qed

theorem highlight_roundtrip_witness:
  "highlightsInv (newMemStorage None) \<and>
   map_values (highlightsList (newMemStorage None)) = [] \<and>
   fst (createHighlight (newMemStorage None) yellowJohn)
     \<in> set (getHighlights (snd (createHighlight (newMemStorage None) yellowJohn)) None) \<and>
   h_userId (fst (createHighlight (newMemStorage None) yellowJohn)) = ''default'' \<and>
   getHighlights
     (deleteHighlight (snd (createHighlight (newMemStorage None) yellowJohn)) ''John:3:16'' None)
     None = []"
proof -
  have inv: "highlightsInv (newMemStorage None)" by (rule highlightsInv_new)
  have empty: "map_values (highlightsList (newMemStorage None)) = []"
    by (simp add: newMemStorage_highlights map_values_def)
  then have fresh: "\<forall>x\<in>set (map_values (highlightsList (newMemStorage None))).
                      \<not> (h_verseId x = ''John:3:16'' \<and> h_userId x = ''default'')"
    by simp
  note rt = highlight_roundtrip [OF inv fresh]
  from rt have "highlightsList
     (deleteHighlight (snd (createHighlight (newMemStorage None) yellowJohn)) ''John:3:16'' None)
       = []"
    by (simp add: newMemStorage_highlights)
  then have "getHighlights
     (deleteHighlight (snd (createHighlight (newMemStorage None) yellowJohn)) ''John:3:16'' None)
     None = []"
    by (simp add: getHighlights_def map_values_def)
  with inv empty rt show ?thesis by simp
qed

subsection \<open>The books registered by the loader\<close>

lemma loadVerse_known:
  assumes "loadVerse vs acc verse = Inr acc'" and "map_has (fst acc) (e_book_name verse)"
  shows "fst acc' = fst acc \<and> books (snd acc') = books (snd acc) \<and>
         currentBookId (snd acc') = currentBookId (snd acc)"
  using assms by (auto simp: loadVerse_def Let_def split: field.splits)

lemma loadVerse_new:
  assumes "loadVerse vs acc verse = Inr acc'" and "\<not> map_has (fst acc) (e_book_name verse)"
  shows "\<exists>book mc.
           e_book verse = Number book \<and>
           fst acc' =
             map_set (e_book_name verse)
               \<lparr>b_id = currentBookId (snd acc), b_name = e_book_name verse,
                 b_testament = (if book \<le> 39 then ''Old'' else ''New''),
                 b_chapters = mc, b_order = book\<rparr> (fst acc) \<and>
           books (snd acc') =
             map_set (currentBookId (snd acc))
               \<lparr>b_id = currentBookId (snd acc), b_name = e_book_name verse,
                 b_testament = (if book \<le> 39 then ''Old'' else ''New''),
                 b_chapters = mc, b_order = book\<rparr> (books (snd acc)) \<and>
           currentBookId (snd acc') = currentBookId (snd acc) + 1"
proof -
  from assms obtain book where ord: "e_book verse = Number book"
    by (cases "e_book verse") (auto simp: loadVerse_def Let_def)
  from assms ord obtain mc
    where mc: "reduceMax (filter (\<lambda>v. e_book_name v = e_book_name verse) vs) = Some mc"
    by (cases "reduceMax (filter (\<lambda>v. e_book_name v = e_book_name verse) vs)")
      (auto simp: loadVerse_def Let_def)
  from assms ord mc have
    "fst acc' =
       map_set (e_book_name verse)
         \<lparr>b_id = currentBookId (snd acc), b_name = e_book_name verse,
           b_testament = (if book \<le> 39 then ''Old'' else ''New''),
           b_chapters = mc, b_order = book\<rparr> (fst acc) \<and>
     books (snd acc') =
       map_set (currentBookId (snd acc))
         \<lparr>b_id = currentBookId (snd acc), b_name = e_book_name verse,
           b_testament = (if book \<le> 39 then ''Old'' else ''New''),
           b_chapters = mc, b_order = book\<rparr> (books (snd acc)) \<and>
     currentBookId (snd acc') = currentBookId (snd acc) + 1"
    by (auto simp: loadVerse_def Let_def split: field.splits)
  with ord show ?thesis by blast
qed

lemma loadVerse_inv:
  assumes inv: "loadInv vs acc" and mem: "verse \<in> set vs"
    and step: "loadVerse vs acc verse = Inr acc'"
  shows "loadInv vs acc'"
proof (cases "map_has (fst acc) (e_book_name verse)")
  case True
  from inv loadVerse_known [OF step True] show ?thesis
    by (simp add: loadInv_def)
next
  case False
  from loadVerse_new [OF step False] obtain book mc
    where ord: "e_book verse = Number book"
      and bm0: "fst acc' =
             map_set (e_book_name verse)
               \<lparr>b_id = currentBookId (snd acc), b_name = e_book_name verse,
                 b_testament = (if book \<le> 39 then ''Old'' else ''New''),
                 b_chapters = mc, b_order = book\<rparr> (fst acc)"
      and bk0: "books (snd acc') =
             map_set (currentBookId (snd acc))
               \<lparr>b_id = currentBookId (snd acc), b_name = e_book_name verse,
                 b_testament = (if book \<le> 39 then ''Old'' else ''New''),
                 b_chapters = mc, b_order = book\<rparr> (books (snd acc))"
      and cnt: "currentBookId (snd acc') = currentBookId (snd acc) + 1"
    by blast
  let ?b = "\<lparr>b_id = currentBookId (snd acc), b_name = e_book_name verse,
               b_testament = (if book \<le> 39 then ''Old'' else ''New''),
               b_chapters = mc, b_order = book\<rparr>"
  from False have fresh_name: "e_book_name verse \<notin> fst ` set (fst acc)"
    by (simp add: map_has_def)
  from inv have "currentBookId (snd acc) \<notin> fst ` set (books (snd acc))"
    by (auto simp: loadInv_def list_all_iff)
  then have bk: "books (snd acc') = books (snd acc) @ [(currentBookId (snd acc), ?b)]"
    by (simp add: bk0 map_set_fresh)
  have bm: "fst acc' = fst acc @ [(e_book_name verse, ?b)]"
    by (simp add: bm0 map_set_fresh [OF fresh_name])
  have old: "(b_testament ?b = ''Old'') = (b_order ?b \<le> 39)" by simp
  have src: "list_ex (\<lambda>v. e_book_name v = b_name ?b \<and> e_book v = Number (b_order ?b)) vs"
    using mem ord by (auto simp: list_ex_iff)
  from inv have a: "list_all (\<lambda>e. fst e < currentBookId (snd acc)) (books (snd acc))"
    and b: "map (\<lambda>e. b_name (snd e)) (books (snd acc)) = map fst (fst acc)"
    and c: "distinct (map fst (fst acc))"
    and d: "list_all (\<lambda>e. (b_testament (snd e) = ''Old'') = (b_order (snd e) \<le> 39) \<and>
                    list_ex (\<lambda>v. e_book_name v = b_name (snd e) \<and>
                                 e_book v = Number (b_order (snd e))) vs)
              (books (snd acc))"
    by (simp_all add: loadInv_def)
  from a have a': "list_all (\<lambda>e. fst e < currentBookId (snd acc) + 1)
                     (books (snd acc) @ [(currentBookId (snd acc), ?b)])"
    by (auto simp: list_all_iff)
  from b have b': "map (\<lambda>e. b_name (snd e)) (books (snd acc) @ [(currentBookId (snd acc), ?b)])
                     = map fst (fst acc @ [(e_book_name verse, ?b)])"
    by simp
  from c fresh_name have c': "distinct (map fst (fst acc @ [(e_book_name verse, ?b)]))"
    by simp
  from d old src have d': "list_all (\<lambda>e. (b_testament (snd e) = ''Old'') = (b_order (snd e) \<le> 39) \<and>
                    list_ex (\<lambda>v. e_book_name v = b_name (snd e) \<and>
                                 e_book v = Number (b_order (snd e))) vs)
              (books (snd acc) @ [(currentBookId (snd acc), ?b)])"
    by simp
  from a' b' c' d' show ?thesis
    unfolding loadInv_def bk bm cnt by (intro conjI)
qed

lemma loadVerses_inv:
  assumes "loadInv vs acc" and "set xs \<subseteq> set vs" and "loadVerses vs acc xs = Inr acc'"
  shows "loadInv vs acc'"
  using assms
proof (induction xs arbitrary: acc)
  case Nil
  then show ?case by simp
next
  case (Cons x xs)
  from Cons.prems(3) obtain acc1 where step: "loadVerse vs acc x = Inr acc1"
    and rest: "loadVerses vs acc1 xs = Inr acc'"
    by (cases "loadVerse vs acc x") simp_all
  from Cons.prems have "loadInv vs acc1"
    by (intro loadVerse_inv [OF _ _ step]) auto
  from Cons.IH [OF this _ rest] Cons.prems(2) show ?case by simp
qed

lemma loadInv_start: "loadInv vs ([], emptyStorage)"
  by (simp add: loadInv_def emptyStorage_def)

lemma distinct_map_transfer:
  assumes "distinct (map f xs)"
    and "\<forall>x\<in>set xs. \<forall>y\<in>set xs. g x = g y \<longrightarrow> f x = f y"
  shows "distinct (map g xs)"
proof -
  from assms(1) have d: "distinct xs" and inj: "inj_on f (set xs)"
    by (simp_all add: distinct_map)
  have "inj_on g (set xs)"
  proof (rule inj_onI)
    fix x y
    assume "x \<in> set xs" "y \<in> set xs" "g x = g y"
    with assms(2) have "f x = f y" by blast
    with inj \<open>x \<in> set xs\<close> \<open>y \<in> set xs\<close> show "x = y" by (auto dest: inj_onD)
  qed
  with d show ?thesis by (simp add: distinct_map)
qed

text \<open>
  A data set that the loop finishes and in which no ordinal has two book names gives
  Books with pairwise distinct orders.
\<close>

lemma loaded_books:
  assumes fin: "loadVerses vs ([], emptyStorage) vs = Inr acc"
    and names: "\<forall>e\<in>set vs. \<forall>e'\<in>set vs. \<forall>n. e_book e = Number n \<and> e_book e' = Number n
                  \<longrightarrow> e_book_name e = e_book_name e'"
  shows "distinct (map b_order (map_values (books (snd acc))))"
proof -
  have inv: "loadInv vs acc"
    by (rule loadVerses_inv [OF loadInv_start _ fin]) simp
  let ?bs = "map_values (books (snd acc))"
  from inv have d: "list_all (\<lambda>e. (b_testament (snd e) = ''Old'') = (b_order (snd e) \<le> 39) \<and>
                    list_ex (\<lambda>v. e_book_name v = b_name (snd e) \<and>
                                 e_book v = Number (b_order (snd e))) vs)
              (books (snd acc))"
    and n: "map (\<lambda>e. b_name (snd e)) (books (snd acc)) = map fst (fst acc)"
    and c: "distinct (map fst (fst acc))"
    by (simp_all add: loadInv_def)
  have src: "\<exists>v\<in>set vs. e_book_name v = b_name b \<and> e_book v = Number (b_order b)"
    if "b \<in> set ?bs" for b
  proof -
    from that obtain e where e: "e \<in> set (books (snd acc))" "b = snd e"
      by (auto simp: map_values_def)
    from d e(1) have
      "(b_testament (snd e) = ''Old'') = (b_order (snd e) \<le> 39) \<and>
       list_ex (\<lambda>v. e_book_name v = b_name (snd e) \<and> e_book v = Number (b_order (snd e))) vs"
      unfolding list_all_iff by (rule bspec)
    then show ?thesis unfolding e(2) list_ex_iff by (rule conjunct2)
  qed
  from c n have dn: "distinct (map b_name ?bs)"
    by (simp add: map_values_def comp_def)
  have "\<forall>x\<in>set ?bs. \<forall>y\<in>set ?bs. b_order x = b_order y \<longrightarrow> b_name x = b_name y"
  proof (intro ballI impI)
    fix x y
    assume x: "x \<in> set ?bs" and y: "y \<in> set ?bs" and eq: "b_order x = b_order y"
    from src [OF x] obtain v
      where v: "v \<in> set vs" "e_book_name v = b_name x" "e_book v = Number (b_order x)"
      by blast
    from src [OF y] obtain w
      where w: "w \<in> set vs" "e_book_name w = b_name y" "e_book w = Number (b_order y)"
      by blast
    from eq v(3) w(3) have "e_book v = Number (b_order x) \<and> e_book w = Number (b_order x)"
      by simp
    with names v(1) w(1) have "e_book_name v = e_book_name w" by blast
    with v(2) w(2) show "b_name x = b_name y" by simp
  qed
  from distinct_map_transfer [OF dn this] show ?thesis .
qed

text \<open>The testament of every registered Book, whatever the loop and the fallback do.\<close>

lemma books_loadVerse:
  "books (storeOf (loadVerse vs acc verse)) = books (snd acc) \<or>
   (\<exists>book mc. books (storeOf (loadVerse vs acc verse)) =
      map_set (currentBookId (snd acc))
        \<lparr>b_id = currentBookId (snd acc), b_name = e_book_name verse,
          b_testament = (if book \<le> 39 then ''Old'' else ''New''),
          b_chapters = mc, b_order = book\<rparr> (books (snd acc)))"
proof (cases "map_has (fst acc) (e_book_name verse)")
  case True
  then have "books (storeOf (loadVerse vs acc verse)) = books (snd acc)"
    by (simp add: loadVerse_def storeOf_def Let_def split: field.splits)
  then show ?thesis by blast
next
  case False
  show ?thesis
  proof (cases "e_book verse")
    case Unconvertible
    with False have "books (storeOf (loadVerse vs acc verse)) = books (snd acc)"
      by (simp add: loadVerse_def storeOf_def Let_def)
    then show ?thesis by blast
  next
    case (Number book)
    show ?thesis
    proof (cases "reduceMax (filter (\<lambda>v. e_book_name v = e_book_name verse) vs)")
      case None
      with False Number have "books (storeOf (loadVerse vs acc verse)) = books (snd acc)"
        by (simp add: loadVerse_def storeOf_def Let_def)
      then show ?thesis by blast
    next
      case (Some mc)
      with False Number have "books (storeOf (loadVerse vs acc verse)) =
        map_set (currentBookId (snd acc))
          \<lparr>b_id = currentBookId (snd acc), b_name = e_book_name verse,
            b_testament = (if book \<le> 39 then ''Old'' else ''New''),
            b_chapters = mc, b_order = book\<rparr> (books (snd acc))"
        by (simp add: loadVerse_def storeOf_def Let_def split: field.splits)
      then show ?thesis by blast
    qed
  qed
qed

lemma booksInv_set:
  assumes "booksInv st" and "books st' = map_set k b (books st)"
    and "(b_testament b = ''Old'') = (b_order b \<le> 39)"
  shows "booksInv st'"
  using assms by (simp add: booksInv_def map_set_all)

lemma booksInv_loadVerse:
  assumes "booksInv (snd acc)"
  shows "booksInv (storeOf (loadVerse vs acc verse))"
proof -
  from books_loadVerse [of vs acc verse]
  consider "books (storeOf (loadVerse vs acc verse)) = books (snd acc)"
    | book mc where "books (storeOf (loadVerse vs acc verse)) =
        map_set (currentBookId (snd acc))
          \<lparr>b_id = currentBookId (snd acc), b_name = e_book_name verse,
            b_testament = (if book \<le> 39 then ''Old'' else ''New''),
            b_chapters = mc, b_order = book\<rparr> (books (snd acc))"
    by blast
  then show ?thesis
  proof cases
    case 1
    with assms show ?thesis by (simp add: booksInv_def)
  next
    case (2 book mc)
    show ?thesis by (rule booksInv_set [OF assms 2]) simp
  qed
qed

lemma booksInv_loadVerses:
  "booksInv (snd acc) \<Longrightarrow> booksInv (storeOf (loadVerses vs acc xs))"
proof (induction xs arbitrary: acc)
  case Nil
  then show ?case by (simp add: storeOf_def)
next
  case (Cons x xs)
  from Cons.prems have step: "booksInv (storeOf (loadVerse vs acc x))"
    by (rule booksInv_loadVerse)
  show ?case
  proof (cases "loadVerse vs acc x")
    case (Inl st)
    with step show ?thesis by (simp add: storeOf_def)
  next
    case (Inr acc1)
    with step have "booksInv (snd acc1)" by (simp add: storeOf_def)
    from Cons.IH [OF this] Inr show ?thesis by (simp add: storeOf_def)
  qed
qed

lemma booksInv_addSampleBook:
  assumes "booksInv st" and "(ib_testament b = ''Old'') = (ib_order b \<le> 39)"
  shows "booksInv (addSampleBook st b)"
proof -
  let ?nb = "\<lparr>b_id = currentBookId st, b_name = ib_name b, b_testament = ib_testament b,
              b_chapters = ib_chapters b, b_order = ib_order b\<rparr>"
  have set: "books (addSampleBook st b) = map_set (currentBookId st) ?nb (books st)"
    by (simp add: addSampleBook_def Let_def)
  have old: "(b_testament ?nb = ''Old'') = (b_order ?nb \<le> 39)"
    using assms(2) by simp
  show ?thesis by (rule booksInv_set [OF assms(1) set old])
qed

lemma books_addSampleVerse: "books (addSampleVerse st v) = books st"
  by (simp add: addSampleVerse_def Let_def)

lemma booksInv_sample:
  assumes "booksInv st"
  shows "booksInv (initializeSampleData st)"
proof -
  have "booksInv (foldl addSampleBook st booksData)"
    unfolding booksData_def foldl.simps
    by (intro booksInv_addSampleBook assms) simp_all
  then show ?thesis
    by (simp add: initializeSampleData_def sampleVerses_def booksInv_def books_addSampleVerse)
qed

lemma booksInv_new: "booksInv (newMemStorage d)"
proof -
  have start: "booksInv emptyStorage" by (simp add: booksInv_def emptyStorage_def)
  show ?thesis
  proof (cases d)
    case None
    from booksInv_sample [OF start] show ?thesis by (simp add: None newMemStorage_None)
  next
    case (Some vs)
    from start have "booksInv (snd (([], emptyStorage) :: (string, BibleBook) jsmap \<times> MemStorage))"
      by simp
    from booksInv_loadVerses [OF this, of vs vs]
    have loaded: "booksInv (storeOf (loadVerses vs ([], emptyStorage) vs))" .
    show ?thesis
    proof (cases "loadVerses vs ([], emptyStorage) vs")
      case (Inl st)
      with loaded have "booksInv st" by (simp add: storeOf_def)
      from booksInv_sample [OF this] Inl show ?thesis by (simp add: Some newMemStorage_Some)
    next
      case (Inr acc)
      with loaded show ?thesis by (simp add: Some newMemStorage_Some storeOf_def)
    qed
  qed
qed

text \<open>The fallback on a store without Books gives the three sample Books.\<close>

lemma sample_orders:
  assumes "books st = []"
  shows "map b_order (map_values (books (initializeSampleData st))) = [1, 40, 43]"
  using assms
  by (simp add: initializeSampleData_def booksData_def sampleVerses_def addSampleBook_def
      addSampleVerse_def Let_def map_values_def)

lemma sample_books:
  "books (newMemStorage None) =
     [(1, \<lparr>b_id = 1, b_name = ''Genesis'', b_testament = ''Old'', b_chapters = 50, b_order = 1\<rparr>),
      (2, \<lparr>b_id = 2, b_name = ''Matthew'', b_testament = ''New'', b_chapters = 28, b_order = 40\<rparr>),
      (3, \<lparr>b_id = 3, b_name = ''John'', b_testament = ''New'', b_chapters = 21, b_order = 43\<rparr>)]"
  by (simp add: newMemStorage_def initializeBibleData_def tryBlock_def initializeSampleData_def
      booksData_def sampleVerses_def addSampleBook_def addSampleVerse_def emptyStorage_def Let_def)


text \<open>
  C9, as stated, fails: the loader takes the order of a book from the first entry with
  its name and checks nothing; a data set that it accepts, with two book names under the
  same ordinal, gives two Books with the same order. The orders also repeat when the loop
  is left by an exception after it has registered Genesis and the fallback registers its
  own Genesis.
\<close>

theorem loader_order_counterexample:
  "tryBlock emptyStorage (Some sharedOrdinal) = Inr (newMemStorage (Some sharedOrdinal)) \<and>
   map b_name (map_values (books (newMemStorage (Some sharedOrdinal)))) = [''Genesis'', ''Exodus''] \<and>
   map b_order (map_values (books (newMemStorage (Some sharedOrdinal)))) = [1, 1] \<and>
   map b_order (map_values (books (newMemStorage (Some brokenSecond)))) = [1, 1, 40, 43]"
  by (simp add: sharedOrdinal_def brokenSecond_def newMemStorage_def initializeBibleData_def tryBlock_def loadVerse_def reduceMax_def
      initializeSampleData_def booksData_def sampleVerses_def addSampleBook_def addSampleVerse_def
      Let_def map_has_def emptyStorage_def map_values_def verseKey_def numberToString_def
      digitChar_def)

text \<open>
  C9, amended: every Book registered by the loader, from a data set that the loop finishes,
  from one that it leaves by an exception, and from the fallback sample data, has testament
  "Old" if and only if its order is at most 39. The orders of the loaded Books are pairwise
  distinct when the loop finishes the data set and no two entries with different book
  names carry the same book ordinal, and when the fallback starts from a store without
  Books (the data could not be read, or the exception came before the first Book).
\<close>

theorem loader_books:
  "(\<forall>b\<in>set (map_values (books (newMemStorage bibleData))).
      (b_testament b = ''Old'') = (b_order b \<le> 39)) \<and>
   ((\<exists>st. tryBlock emptyStorage bibleData = Inr st) \<and>
    (\<forall>vs. bibleData = Some vs \<longrightarrow>
       (\<forall>e\<in>set vs. \<forall>e'\<in>set vs. \<forall>n. e_book e = Number n \<and> e_book e' = Number n
          \<longrightarrow> e_book_name e = e_book_name e'))
      \<longrightarrow> distinct (map b_order (map_values (books (newMemStorage bibleData))))) \<and>
   ((\<exists>st. tryBlock emptyStorage bibleData = Inl st \<and> books st = [])
      \<longrightarrow> distinct (map b_order (map_values (books (newMemStorage bibleData)))))"
proof (intro conjI impI)
  from booksInv_new [of bibleData]
  show "\<forall>b\<in>set (map_values (books (newMemStorage bibleData))).
          (b_testament b = ''Old'') = (b_order b \<le> 39)"
    by (auto simp: booksInv_def list_all_iff map_values_def)
next
  assume h: "(\<exists>st. tryBlock emptyStorage bibleData = Inr st) \<and>
    (\<forall>vs. bibleData = Some vs \<longrightarrow>
       (\<forall>e\<in>set vs. \<forall>e'\<in>set vs. \<forall>n. e_book e = Number n \<and> e_book e' = Number n
          \<longrightarrow> e_book_name e = e_book_name e'))"
  then obtain st where st: "tryBlock emptyStorage bibleData = Inr st" by blast
  then obtain vs where d: "bibleData = Some vs"
    by (cases bibleData) (simp_all add: tryBlock_def)
  from st d obtain acc where acc: "loadVerses vs ([], emptyStorage) vs = Inr acc"
    by (cases "loadVerses vs ([], emptyStorage) vs") (simp_all add: tryBlock_def)
  from h d have names: "\<forall>e\<in>set vs. \<forall>e'\<in>set vs. \<forall>n. e_book e = Number n \<and> e_book e' = Number n
          \<longrightarrow> e_book_name e = e_book_name e'"
    by blast
  from loaded_books [OF acc names] acc
  show "distinct (map b_order (map_values (books (newMemStorage bibleData))))"
    by (simp add: d newMemStorage_Some)
next
  assume "\<exists>st. tryBlock emptyStorage bibleData = Inl st \<and> books st = []"
  then obtain st where st: "tryBlock emptyStorage bibleData = Inl st" and e: "books st = []"
    by blast
  from st have "newMemStorage bibleData = initializeSampleData st"
    by (simp add: newMemStorage_def initializeBibleData_def)
  with sample_orders [OF e]
  show "distinct (map b_order (map_values (books (newMemStorage bibleData))))"
    by simp
qed

theorem loader_books_witness:
  "tryBlock emptyStorage (Some twoBooks) = Inr (newMemStorage (Some twoBooks)) \<and>
   map b_order (map_values (books (newMemStorage (Some twoBooks)))) = [1, 43] \<and>
   map b_testament (map_values (books (newMemStorage (Some twoBooks)))) = [''Old'', ''New''] \<and>
   distinct (map b_order (map_values (books (newMemStorage (Some twoBooks))))) \<and>
   tryBlock emptyStorage (Some brokenFirst) = Inl emptyStorage \<and>
   distinct (map b_order (map_values (books (newMemStorage (Some brokenFirst))))) \<and>
   distinct (map b_order (map_values (books (newMemStorage None)))) \<and>
   list_all (\<lambda>b. (b_testament b = ''Old'') = (b_order b \<le> 39))
     (map_values (books (newMemStorage (Some brokenSecond))))"
proof -
  have acc: "tryBlock emptyStorage (Some twoBooks) = Inr (newMemStorage (Some twoBooks))"
    by (simp add: twoBooks_def newMemStorage_def initializeBibleData_def tryBlock_def loadVerse_def reduceMax_def
      initializeSampleData_def booksData_def sampleVerses_def addSampleBook_def addSampleVerse_def
      Let_def map_has_def emptyStorage_def map_values_def verseKey_def numberToString_def
      digitChar_def)
  have names: "\<forall>vs. Some twoBooks = Some vs \<longrightarrow>
       (\<forall>e\<in>set vs. \<forall>e'\<in>set vs. \<forall>n. e_book e = Number n \<and> e_book e' = Number n
          \<longrightarrow> e_book_name e = e_book_name e')"
    by (simp add: twoBooks_def)
  have o: "map b_order (map_values (books (newMemStorage (Some twoBooks)))) = [1, 43]"
    by (simp add: twoBooks_def newMemStorage_def initializeBibleData_def tryBlock_def loadVerse_def reduceMax_def
      initializeSampleData_def booksData_def sampleVerses_def addSampleBook_def addSampleVerse_def
      Let_def map_has_def emptyStorage_def map_values_def verseKey_def numberToString_def
      digitChar_def)
  have t: "map b_testament (map_values (books (newMemStorage (Some twoBooks)))) = [''Old'', ''New'']"
    by (simp add: twoBooks_def newMemStorage_def initializeBibleData_def tryBlock_def loadVerse_def reduceMax_def
      initializeSampleData_def booksData_def sampleVerses_def addSampleBook_def addSampleVerse_def
      Let_def map_has_def emptyStorage_def map_values_def verseKey_def numberToString_def
      digitChar_def)
  have first: "tryBlock emptyStorage (Some brokenFirst) = Inl emptyStorage"
    by (simp add: brokenFirst_def tryBlock_def loadVerse_def Let_def map_has_def)
  have none: "tryBlock emptyStorage None = Inl emptyStorage"
    by (simp add: tryBlock_def)
  have empty: "books emptyStorage = []" by (simp add: emptyStorage_def)
  note lb = loader_books [of "Some twoBooks"]
  from lb acc names
  have d1: "distinct (map b_order (map_values (books (newMemStorage (Some twoBooks)))))"
    by blast
  from loader_books [of "Some brokenFirst"] first empty
  have d2: "distinct (map b_order (map_values (books (newMemStorage (Some brokenFirst)))))"
    by blast
  from loader_books [of None] none empty
  have d3: "distinct (map b_order (map_values (books (newMemStorage None))))"
    by blast
  from loader_books [of "Some brokenSecond"]
  have d4: "list_all (\<lambda>b. (b_testament b = ''Old'') = (b_order b \<le> 39))
     (map_values (books (newMemStorage (Some brokenSecond))))"
    unfolding list_all_iff by (rule conjunct1)
  from acc o t d1 first d2 d3 d4 show ?thesis by (intro conjI)
qed

subsection \<open>Substrings\<close>

lemma startsWith_iff: "startsWith s n \<longleftrightarrow> (\<exists>q. s = n @ q)"
  by (induction s n rule: startsWith.induct) auto

lemma strIncludes_iff: "strIncludes s n \<longleftrightarrow> (\<exists>p q. s = p @ n @ q)"
proof (induction s)
  case Nil
  show ?case by auto
next
  case (Cons c cs)
  show ?case
  proof
    assume "strIncludes (c # cs) n"
    then consider "startsWith (c # cs) n" | "strIncludes cs n" by auto
    then show "\<exists>p q. c # cs = p @ n @ q"
    proof cases
      case 1
      then obtain q where "c # cs = n @ q" by (auto simp: startsWith_iff)
      then have "c # cs = [] @ n @ q" by simp
      then show ?thesis by blast
    next
      case 2
      with Cons obtain p q where "cs = p @ n @ q" by auto
      then have "c # cs = (c # p) @ n @ q" by simp
      then show ?thesis by blast
    qed
  next
    assume "\<exists>p q. c # cs = p @ n @ q"
    then obtain p q where pq: "c # cs = p @ n @ q" by blast
    show "strIncludes (c # cs) n"
    proof (cases p)
      case Nil
      with pq have "startsWith (c # cs) n" by (auto simp: startsWith_iff)
      then show ?thesis by simp
    next
      case (Cons a p')
      with pq have "cs = p' @ n @ q" by simp
      with Cons.IH have "strIncludes cs n" by blast
      then show ?thesis by simp
    qed
  qed
qed

subsection \<open>Listing the verses of a book\<close>

text \<open>
  C5: for a book name and an optional chapter that is at least 1 when it is given,
  \<open>getVersesByBook\<close> returns exactly the stored verses whose book is equal to the name
  (and whose chapter is equal to the chapter given), in ascending order of the verse
  number.
\<close>

theorem getVersesByBook_sorted:
  assumes "case chapter of None \<Rightarrow> True | Some c \<Rightarrow> 1 \<le> c"
  shows "set (getVersesByBook st book chapter) =
           {x \<in> set (map_values (verses st)).
              v_book x = book \<and> (case chapter of None \<Rightarrow> True | Some c \<Rightarrow> v_chapter x = c)} \<and>
         sorted (map v_verse (getVersesByBook st book chapter))"
  using assms by (auto simp: getVersesByBook_def split: option.splits)

lemma sample_verses:
  "verses (newMemStorage None) =
     [(''Genesis:1:1'', \<lparr>v_id = 1, v_book = ''Genesis'', v_chapter = 1, v_verse = 1,
         v_text = ''In the beginning God created the heavens and the earth.''\<rparr>),
      (''Matthew:5:3'', \<lparr>v_id = 2, v_book = ''Matthew'', v_chapter = 5, v_verse = 3,
         v_text = ''Blessed are the poor in spirit, for theirs is the kingdom of heaven.''\<rparr>),
      (''John:3:16'', \<lparr>v_id = 3, v_book = ''John'', v_chapter = 3, v_verse = 16,
         v_text = ''For God so loved the world that he gave his one and only Son, that whoever believes in him shall not perish but have eternal life.''\<rparr>)]"
  by code_simp

theorem getVersesByBook_sorted_witness:
  "(1::int) \<le> 3 \<and>
   set (getVersesByBook (newMemStorage None) ''John'' (Some 3)) =
     {\<lparr>v_id = 3, v_book = ''John'', v_chapter = 3, v_verse = 16,
         v_text = ''For God so loved the world that he gave his one and only Son, that whoever believes in him shall not perish but have eternal life.''\<rparr>} \<and>
   sorted (map v_verse (getVersesByBook (newMemStorage None) ''John'' (Some 3)))"
proof -
  have h: "case Some (3::int) of None \<Rightarrow> True | Some c \<Rightarrow> 1 \<le> c" by simp
  note t = getVersesByBook_sorted [OF h, of "newMemStorage None" "''John''"]
  have "{x \<in> set (map_values (verses (newMemStorage None))).
           v_book x = ''John'' \<and> (case Some (3::int) of None \<Rightarrow> True | Some c \<Rightarrow> v_chapter x = c)} =
        {\<lparr>v_id = 3, v_book = ''John'', v_chapter = 3, v_verse = 16,
         v_text = ''For God so loved the world that he gave his one and only Son, that whoever believes in him shall not perish but have eternal life.''\<rparr>}"
    by (auto simp: sample_verses map_values_def)
  with t show ?thesis by simp
qed

subsection \<open>The key of a verse determines book, chapter and verse\<close>

declare digitsOf.simps [simp del]

lemma digit_cases:
  "k < 10 \<Longrightarrow> k = 0 \<or> k = 1 \<or> k = 2 \<or> k = 3 \<or> k = 4 \<or> k = 5 \<or> k = 6 \<or> k = 7 \<or> k = 8 \<or> k = (9::nat)"
  by arith

lemma digitChar_props:
  assumes "k < 10"
  shows "isDigit (digitChar k)" and "digitVal (digitChar k) = int k"
proof -
  have "isDigit (digitChar k) \<and> digitVal (digitChar k) = int k"
    if "k = 0 \<or> k = 1 \<or> k = 2 \<or> k = 3 \<or> k = 4 \<or> k = 5 \<or> k = 6 \<or> k = 7 \<or> k = 8 \<or> k = 9"
    using that by (elim disjE) (simp_all add: digitChar_def isDigit_def digitVal_def)
  from this [OF digit_cases [OF assms]]
  show "isDigit (digitChar k)" and "digitVal (digitChar k) = int k" by simp_all
qed

lemma digitsOf_small: "n < 10 \<Longrightarrow> digitsOf n = [digitChar n]"
  by (subst digitsOf.simps) simp

lemma digitsOf_large:
  "\<not> n < 10 \<Longrightarrow> digitsOf n = digitsOf (n div 10) @ [digitChar (n mod 10)]"
  by (subst digitsOf.simps) simp

lemma digitsOf_digits: "list_all isDigit (digitsOf n)"
proof (induction n rule: digitsOf.induct)
  case (1 n)
  show ?case
  proof (cases "n < 10")
    case True
    then show ?thesis by (simp add: digitsOf_small digitChar_props)
  next
    case False
    have "n mod 10 < 10" by simp
    then have d: "isDigit (digitChar (n mod 10))" by (rule digitChar_props)
    from 1 [OF False] have "list_all isDigit (digitsOf (n div 10))" .
    with d show ?thesis
      by (simp add: digitsOf_large [OF False])
  qed
qed

lemma digitsOf_value: "foldl (\<lambda>a c. 10 * a + digitVal c) 0 (digitsOf n) = int n"
proof (induction n rule: digitsOf.induct)
  case (1 n)
  show ?case
  proof (cases "n < 10")
    case True
    then show ?thesis by (simp add: digitsOf_small digitChar_props)
  next
    case False
    have "n mod 10 < 10" by simp
    then have d: "digitVal (digitChar (n mod 10)) = int (n mod 10)" by (rule digitChar_props)
    from 1 [OF False]
    have ih: "foldl (\<lambda>a c. 10 * a + digitVal c) 0 (digitsOf (n div 10)) = int (n div 10)" .
    have "foldl (\<lambda>a c. 10 * a + digitVal c) 0 (digitsOf n)
        = 10 * int (n div 10) + int (n mod 10)"
      by (simp only: digitsOf_large [OF False] foldl_append foldl.simps ih d)
    also have "\<dots> = int (10 * (n div 10) + n mod 10)"
      by (simp only: of_nat_add of_nat_mult of_nat_numeral)
    also have "\<dots> = int n" by simp
    finally show ?thesis .
  qed
qed

lemma digitsOf_inj:
  assumes "digitsOf n = digitsOf m"
  shows "n = m"
proof -
  have "int n = foldl (\<lambda>a c. 10 * a + digitVal c) 0 (digitsOf n)"
    by (simp only: digitsOf_value)
  also have "\<dots> = foldl (\<lambda>a c. 10 * a + digitVal c) 0 (digitsOf m)"
    by (simp only: assms)
  also have "\<dots> = int m" by (rule digitsOf_value)
  finally show ?thesis by simp
qed

lemma isDigit_no_sign: "isDigit d \<Longrightarrow> d \<noteq> CHR ''-'' \<and> d \<noteq> CHR '':''"
  by (auto simp: isDigit_def)

lemma digitsOf_no_sign: "CHR ''-'' \<notin> set (digitsOf n) \<and> CHR '':'' \<notin> set (digitsOf n)"
  using digitsOf_digits [of n] isDigit_no_sign by (auto simp: list_all_iff)

lemma numberToString_inj:
  assumes "numberToString i = numberToString j"
  shows "i = j"
proof -
  consider "i < 0" "j < 0" | "i < 0" "\<not> j < 0" | "\<not> i < 0" "j < 0" | "\<not> i < 0" "\<not> j < 0"
    by blast
  then show ?thesis
  proof cases
    case 1
    with assms have "digitsOf (nat (- i)) = digitsOf (nat (- j))"
      by (simp add: numberToString_def)
    then have "nat (- i) = nat (- j)" by (rule digitsOf_inj)
    with 1 show ?thesis by simp
  next
    case 2
    with assms have "CHR ''-'' # digitsOf (nat (- i)) = digitsOf (nat j)"
      by (simp add: numberToString_def)
    then have "CHR ''-'' \<in> set (digitsOf (nat j))" by (metis list.set_intros(1))
    with digitsOf_no_sign show ?thesis by blast
  next
    case 3
    with assms have "digitsOf (nat i) = CHR ''-'' # digitsOf (nat (- j))"
      by (simp add: numberToString_def)
    then have "CHR ''-'' \<in> set (digitsOf (nat i))" by (metis list.set_intros(1))
    with digitsOf_no_sign show ?thesis by blast
  next
    case 4
    with assms have "digitsOf (nat i) = digitsOf (nat j)"
      by (simp add: numberToString_def)
    then have "nat i = nat j" by (rule digitsOf_inj)
    with 4 show ?thesis by simp
  qed
qed

lemma numberToString_no_colon: "CHR '':'' \<notin> set (numberToString i)"
  using digitsOf_no_sign by (simp add: numberToString_def)

lemma split_at_last:
  assumes "x \<notin> set s" and "x \<notin> set s'" and "a @ x # s = a' @ x # s'"
  shows "a = a' \<and> s = s'"
proof -
  from assms(3) obtain us
    where "(a = a' @ us \<and> us @ x # s = x # s') \<or> (a @ us = a' \<and> x # s = us @ x # s')"
    by (auto simp: append_eq_append_conv2)
  then show ?thesis
  proof
    assume h: "a = a' @ us \<and> us @ x # s = x # s'"
    show ?thesis
    proof (cases us)
      case Nil
      with h show ?thesis by simp
    next
      case (Cons u us')
      with h have "us' @ x # s = s'" by simp
      then have "x \<in> set s'" by auto
      with assms(2) show ?thesis by simp
    qed
  next
    assume h: "a @ us = a' \<and> x # s = us @ x # s'"
    show ?thesis
    proof (cases us)
      case Nil
      with h show ?thesis by simp
    next
      case (Cons u us')
      with h have "s = us' @ x # s'" by simp
      then have "x \<in> set s" by auto
      with assms(1) show ?thesis by simp
    qed
  qed
qed

lemma verseKey_inj:
  assumes "verseKey b c v = verseKey b' c' v'"
  shows "b = b' \<and> c = c' \<and> v = v'"
proof -
  from assms have
    "(b @ CHR '':'' # numberToString c) @ CHR '':'' # numberToString v =
     (b' @ CHR '':'' # numberToString c') @ CHR '':'' # numberToString v'"
    by (simp add: verseKey_def)
  from split_at_last [OF numberToString_no_colon numberToString_no_colon this]
  have 1: "b @ CHR '':'' # numberToString c = b' @ CHR '':'' # numberToString c'"
    and 2: "numberToString v = numberToString v'" by simp_all
  from split_at_last [OF numberToString_no_colon numberToString_no_colon 1]
  have 3: "b = b'" and 4: "numberToString c = numberToString c'" by simp_all
  from 2 3 4 show ?thesis by (simp add: numberToString_inj)
qed

subsection \<open>What a match of the regular expression consumes\<close>

lemma reStar_Some:
  assumes "reStar p s k = Some r"
  shows "\<exists>n. n \<le> length s \<and> list_all p (take n s) \<and> k (drop n s) = Some r"
  using assms
proof (induction s)
  case Nil
  then show ?case by simp
next
  case (Cons c cs)
  show ?case
  proof (cases "p c \<and> reStar p cs k \<noteq> None")
    case True
    with Cons.prems have "reStar p cs k = Some r" by auto
    from Cons.IH [OF this] obtain n
      where "n \<le> length cs" "list_all p (take n cs)" "k (drop n cs) = Some r" by blast
    with True have "Suc n \<le> length (c # cs) \<and> list_all p (take (Suc n) (c # cs)) \<and>
        k (drop (Suc n) (c # cs)) = Some r" by simp
    then show ?thesis by blast
  next
    case False
    with Cons.prems have "k (c # cs) = Some r" by (auto split: if_splits option.splits)
    then have "0 \<le> length (c # cs) \<and> list_all p (take 0 (c # cs)) \<and>
        k (drop 0 (c # cs)) = Some r" by simp
    then show ?thesis by blast
  qed
qed

lemma rePlus_Some:
  assumes "rePlus p s k = Some r"
  shows "\<exists>n. 0 < n \<and> n \<le> length s \<and> list_all p (take n s) \<and> k (drop n s) = Some r"
proof (cases s)
  case Nil
  with assms show ?thesis by (simp add: rePlus_def)
next
  case (Cons c cs)
  with assms have pc: "p c" and "reStar p cs k = Some r"
    by (auto simp: rePlus_def split: if_splits)
  from reStar_Some [OF this(2)] obtain n
    where "n \<le> length cs" "list_all p (take n cs)" "k (drop n cs) = Some r" by blast
  with pc Cons have "0 < Suc n \<and> Suc n \<le> length s \<and> list_all p (take (Suc n) s) \<and>
      k (drop (Suc n) s) = Some r" by simp
  then show ?thesis by blast
qed

lemma reOpt_Some:
  assumes "reOpt p s k = Some r"
  shows "\<exists>n. n \<le> length s \<and> k (drop n s) = Some r"
proof (cases s)
  case Nil
  with assms show ?thesis by (simp add: reOpt_def)
next
  case (Cons c cs)
  with assms consider "k cs = Some r" | "k s = Some r"
    by (auto simp: reOpt_def split: if_splits option.splits)
  then show ?thesis
  proof cases
    case 1
    with Cons have "1 \<le> length s \<and> k (drop 1 s) = Some r" by simp
    then show ?thesis by blast
  next
    case 2
    then have "0 \<le> length s \<and> k (drop 0 s) = Some r" by simp
    then show ?thesis by blast
  qed
qed

lemma reChar_Some:
  assumes "reChar ch s k = Some r"
  shows "\<exists>s'. s = ch # s' \<and> k s' = Some r"
  using assms by (cases s) (auto simp: reChar_def split: if_splits)

lemma consumed_drop: "n \<le> length s \<Longrightarrow> consumed s (drop n s) = take n s"
  by (simp add: consumed_def)

lemma consumed_split: "n \<le> length s \<Longrightarrow> s = consumed s (drop n s) @ drop n s"
  by (simp add: consumed_drop)

lemma isDigit_plain: "isDigit d \<Longrightarrow> \<not> isWhiteSpace d \<and> d \<noteq> CHR ''-'' \<and> d \<noteq> CHR ''+''"
  by (auto simp: isDigit_def isWhiteSpace_def)

declare excess.simps [simp del]

lemma toDouble_small:
  assumes "n < 2 ^ 53"
  shows "toDouble n = Some n"
proof -
  from assms have "excess n = 0" by (subst excess.simps) simp
  moreover from assms have "n < 2 ^ 1024" by simp
  ultimately show ?thesis by (simp add: toDouble_def)
qed

text \<open>
  On a non-empty string of digits \<open>parseInt\<close> gives the double of its decimal value.
\<close>

lemma parseInt_digits:
  assumes "c \<noteq> []" and "list_all isDigit c"
  shows "parseInt c =
           (case toDouble (nat (foldl (\<lambda>a d. 10 * a + digitVal d) 0 c)) of
              Some m \<Rightarrow> Finite (int m)
            | None \<Rightarrow> PosInfinity)"
proof -
  from assms obtain d ds where c: "c = d # ds" and d: "isDigit d" and ds: "list_all isDigit ds"
    by (cases c) auto
  from d ds have "takeWhile isDigit c = c"
    by (simp add: c list_all_iff)
  with isDigit_plain [OF d] show ?thesis
    by (simp add: parseInt_def c split: option.splits)
qed

lemma parseInt_not_NaN:
  assumes "c \<noteq> []" and "list_all isDigit c"
  shows "parseInt c \<noteq> NaN"
  by (simp add: parseInt_digits [OF assms] split: option.splits)

text \<open>Beyond 53 bits the parsed number is the nearest double, not the value written.\<close>

lemma parseInt_rounds: "parseInt ''9007199254740993'' = Finite 9007199254740992"
proof -
  have e: "excess 9007199254740993 = 1"
    by (subst excess.simps, simp, subst excess.simps, simp)
  show ?thesis
    by (simp add: parseInt_digits isDigit_def digitVal_def toDouble_def e)
qed

lemma find_Some_split:
  assumes "find P xs = Some x"
  shows "\<exists>pre post. xs = pre @ x # post \<and> (\<forall>y\<in>set pre. \<not> P y) \<and> P x"
  using assms
proof (induction xs)
  case Nil
  then show ?case by simp
next
  case (Cons a xs)
  show ?case
  proof (cases "P a")
    case True
    with Cons.prems have "a # xs = [] @ x # xs \<and> (\<forall>y\<in>set []. \<not> P y) \<and> P x" by simp
    then show ?thesis by blast
  next
    case False
    with Cons obtain pre post where "xs = pre @ x # post" "\<forall>y\<in>set pre. \<not> P y" "P x"
      by auto
    with False have "a # xs = (a # pre) @ x # post \<and> (\<forall>y\<in>set (a # pre). \<not> P y) \<and> P x"
      by simp
    then show ?thesis by blast
  qed
qed

lemma hd_filter_find: "filter P xs \<noteq> [] \<Longrightarrow> find P xs = Some (hd (filter P xs))"
  by (induction xs) auto

lemma lowerChar_idem: "lowerChar (lowerChar c) = lowerChar c"
proof -
  have bound: "of_char c < (256::nat)" by simp
  show ?thesis
    using bound by (auto simp: lowerChar_def Let_def)
qed

lemma toLowerCase_fixed:
  assumes "set s \<subseteq> set (toLowerCase t)"
  shows "toLowerCase s = s"
proof -
  have "lowerChar x = x" if "x \<in> set s" for x
  proof -
    from that assms obtain y where "x = lowerChar y" by (auto simp: toLowerCase_def)
    then show ?thesis by (simp add: lowerChar_idem)
  qed
  then show ?thesis by (simp add: toLowerCase_def map_idI)
qed

lemma set_trim: "set (trim s) \<subseteq> set s"
proof
  fix x
  assume "x \<in> set (trim s)"
  then have "x \<in> set (dropWhile isWhiteSpace (rev (dropWhile isWhiteSpace s)))"
    by (simp add: trim_def)
  then have "x \<in> set (rev (dropWhile isWhiteSpace s))" by (rule set_dropWhileD)
  then have "x \<in> set (dropWhile isWhiteSpace s)" by simp
  then show "x \<in> set s" by (rule set_dropWhileD)
qed

subsection \<open>The regular expression matches exactly the reference shape\<close>

lemma reStar_None:
  assumes "reStar p s k = None" and "n \<le> length s" and "list_all p (take n s)"
  shows "k (drop n s) = None"
  using assms
proof (induction s arbitrary: n)
  case Nil
  then show ?case by simp
next
  case (Cons c cs)
  show ?case
  proof (cases n)
    case 0
    with Cons.prems(1) show ?thesis by (simp split: if_splits option.splits)
  next
    case (Suc m)
    with Cons.prems have pc: "p c" and m: "m \<le> length cs" "list_all p (take m cs)" by simp_all
    with Cons.prems(1) have "reStar p cs k = None" by (simp split: option.splits)
    from Cons.IH [OF this m] Suc show ?thesis by simp
  qed
qed

lemma rePlus_None:
  assumes "rePlus p s k = None" and "0 < n" and "n \<le> length s" and "list_all p (take n s)"
  shows "k (drop n s) = None"
proof -
  from assms(2,3) obtain c cs m where s: "s = c # cs" and n: "n = Suc m"
    by (cases s; cases n) auto
  with assms have "p c" "m \<le> length cs" "list_all p (take m cs)" by simp_all
  moreover with assms(1) s have "reStar p cs k = None" by (simp add: rePlus_def)
  ultimately have "k (drop m cs) = None" by (intro reStar_None)
  with s n show ?thesis by simp
qed

lemma reOpt_None:
  assumes "reOpt p s k = None" and "n \<le> 1" and "n \<le> length s" and "list_all p (take n s)"
  shows "k (drop n s) = None"
proof (cases s)
  case Nil
  with assms show ?thesis by (simp add: reOpt_def)
next
  case (Cons c cs)
  from assms(2) consider "n = 0" | "n = 1" by arith
  then show ?thesis
  proof cases
    case 1
    with assms(1) Cons show ?thesis
      by (simp add: reOpt_def split: if_splits option.splits)
  next
    case 2
    with assms(4) Cons have "p c" by simp
    with assms(1) Cons 2 show ?thesis
      by (simp add: reOpt_def split: option.splits)
  qed
qed

lemma reStar_greedy:
  assumes "reStar p s k = Some r"
  shows "\<exists>n. n \<le> length s \<and> list_all p (take n s) \<and> k (drop n s) = Some r \<and>
             (\<forall>m. n < m \<longrightarrow> m \<le> length s \<longrightarrow> list_all p (take m s) \<longrightarrow> k (drop m s) = None)"
  using assms
proof (induction s)
  case Nil
  then show ?case by simp
next
  case (Cons c cs)
  show ?case
  proof (cases "p c \<and> reStar p cs k \<noteq> None")
    case True
    with Cons.prems have "reStar p cs k = Some r" by auto
    from Cons.IH [OF this] obtain n
      where n: "n \<le> length cs" "list_all p (take n cs)" "k (drop n cs) = Some r"
        and mx: "\<forall>m. n < m \<longrightarrow> m \<le> length cs \<longrightarrow> list_all p (take m cs) \<longrightarrow> k (drop m cs) = None"
      by blast
    have "k (drop m (c # cs)) = None"
      if "Suc n < m" "m \<le> length (c # cs)" "list_all p (take m (c # cs))" for m
    proof -
      from that(1) obtain m' where m': "m = Suc m'" by (cases m) auto
      with that have "n < m'" "m' \<le> length cs" "list_all p (take m' cs)" by simp_all
      with mx have "k (drop m' cs) = None" by blast
      with m' show ?thesis by simp
    qed
    with n True have "Suc n \<le> length (c # cs) \<and> list_all p (take (Suc n) (c # cs)) \<and>
        k (drop (Suc n) (c # cs)) = Some r \<and>
        (\<forall>m. Suc n < m \<longrightarrow> m \<le> length (c # cs) \<longrightarrow> list_all p (take m (c # cs)) \<longrightarrow>
             k (drop m (c # cs)) = None)"
      by simp
    then show ?thesis by blast
  next
    case False
    with Cons.prems have here: "k (c # cs) = Some r" by (auto split: if_splits option.splits)
    have "k (drop m (c # cs)) = None"
      if "0 < m" "m \<le> length (c # cs)" "list_all p (take m (c # cs))" for m
    proof -
      from that(1) obtain m' where m': "m = Suc m'" by (cases m) auto
      with that have pc: "p c" and "m' \<le> length cs" "list_all p (take m' cs)" by simp_all
      moreover from pc False have "reStar p cs k = None" by simp
      ultimately have "k (drop m' cs) = None" by (intro reStar_None)
      with m' show ?thesis by simp
    qed
    with here have "0 \<le> length (c # cs) \<and> list_all p (take 0 (c # cs)) \<and>
        k (drop 0 (c # cs)) = Some r \<and>
        (\<forall>m. 0 < m \<longrightarrow> m \<le> length (c # cs) \<longrightarrow> list_all p (take m (c # cs)) \<longrightarrow>
             k (drop m (c # cs)) = None)"
      by simp
    then show ?thesis by blast
  qed
qed

lemma rePlus_greedy:
  assumes "rePlus p s k = Some r"
  shows "\<exists>n. 0 < n \<and> n \<le> length s \<and> list_all p (take n s) \<and> k (drop n s) = Some r \<and>
             (\<forall>m. n < m \<longrightarrow> m \<le> length s \<longrightarrow> list_all p (take m s) \<longrightarrow> k (drop m s) = None)"
proof (cases s)
  case Nil
  with assms show ?thesis by (simp add: rePlus_def)
next
  case (Cons c cs)
  with assms have pc: "p c" and "reStar p cs k = Some r"
    by (auto simp: rePlus_def split: if_splits)
  from reStar_greedy [OF this(2)] obtain n
    where n: "n \<le> length cs" "list_all p (take n cs)" "k (drop n cs) = Some r"
      and mx: "\<forall>m. n < m \<longrightarrow> m \<le> length cs \<longrightarrow> list_all p (take m cs) \<longrightarrow> k (drop m cs) = None"
    by blast
  have "k (drop m s) = None" if "Suc n < m" "m \<le> length s" "list_all p (take m s)" for m
  proof -
    from that(1) obtain m' where m': "m = Suc m'" by (cases m) auto
    with that Cons have "n < m'" "m' \<le> length cs" "list_all p (take m' cs)" by simp_all
    with mx have "k (drop m' cs) = None" by blast
    with m' Cons show ?thesis by simp
  qed
  with n pc Cons have "0 < Suc n \<and> Suc n \<le> length s \<and> list_all p (take (Suc n) s) \<and>
      k (drop (Suc n) s) = Some r \<and>
      (\<forall>m. Suc n < m \<longrightarrow> m \<le> length s \<longrightarrow> list_all p (take m s) \<longrightarrow> k (drop m s) = None)"
    by simp
  then show ?thesis by blast
qed

lemma reOpt_Some_class:
  assumes "reOpt p s k = Some r"
  shows "\<exists>n. n \<le> 1 \<and> n \<le> length s \<and> list_all p (take n s) \<and> k (drop n s) = Some r"
proof (cases s)
  case Nil
  with assms show ?thesis by (simp add: reOpt_def)
next
  case (Cons c cs)
  with assms consider "p c" "k cs = Some r" | "k s = Some r"
    by (auto simp: reOpt_def split: if_splits option.splits)
  then show ?thesis
  proof cases
    case 1
    with Cons have "(1::nat) \<le> 1 \<and> 1 \<le> length s \<and> list_all p (take 1 s) \<and> k (drop 1 s) = Some r"
      by simp
    then show ?thesis by blast
  next
    case 2
    then have "(0::nat) \<le> 1 \<and> 0 \<le> length s \<and> list_all p (take 0 s) \<and> k (drop 0 s) = Some r"
      by simp
    then show ?thesis by blast
  qed
qed

text \<open>A greedy quantifier whose class ends where the rest begins takes the whole run.\<close>

lemma reStar_run:
  assumes "list_all p w" and "rest = [] \<or> \<not> p (hd rest)" and "k rest = Some r"
  shows "reStar p (w @ rest) k = Some r"
  using assms(1)
proof (induction w)
  case Nil
  from assms(2,3) show ?case by (cases rest) auto
next
  case (Cons a w)
  then show ?case by simp
qed

lemma rePlus_run:
  assumes "w \<noteq> []" and "list_all p w" and "rest = [] \<or> \<not> p (hd rest)" and "k rest = Some r"
  shows "rePlus p (w @ rest) k = Some r"
proof -
  from assms(1,2) obtain a w' where w: "w = a # w'" and a: "p a" and w': "list_all p w'"
    by (cases w) auto
  from w' assms(3,4) have "reStar p (w' @ rest) k = Some r" by (rule reStar_run)
  with w a show ?thesis by (simp add: rePlus_def)
qed


lemma verseRefPattern_tail:
  "verseRefPattern s0 =
     reOpt (\<lambda>c. c \<in> set ''123'') s0 (\<lambda>s1.
     reStar isWhiteSpace s1 (\<lambda>s2.
     rePlus (\<lambda>c. isAlpha c \<or> isWhiteSpace c) s2 (refTail s0)))"
  unfolding verseRefPattern_def refTail_def by (rule refl)

lemma refTail_Some:
  assumes "refTail s0 s3 = Some r"
  shows "\<exists>w c v. s3 = w @ c @ '':'' @ v \<and> list_all isWhiteSpace w \<and>
           c \<noteq> [] \<and> list_all isDigit c \<and> v \<noteq> [] \<and> list_all isDigit v \<and>
           r = (consumed s0 s3, c, v)"
proof -
  from reStar_Some [OF assms [unfolded refTail_def]] obtain n4 where n4: "n4 \<le> length s3"
    and ws: "list_all isWhiteSpace (take n4 s3)"
    and r4: "rePlus isDigit (drop n4 s3) (\<lambda>s5.
       reChar (CHR '':'') s5 (\<lambda>s6.
       rePlus isDigit s6 (\<lambda>s7.
         if s7 = [] then Some (consumed s0 s3, consumed (drop n4 s3) s5, consumed s6 s7)
         else None)))
       = Some r"
    by blast
  define s4 where "s4 = drop n4 s3"
  from rePlus_Some [OF r4] obtain n5 where n5: "0 < n5" "n5 \<le> length s4"
    and d5: "list_all isDigit (take n5 s4)"
    and r5: "reChar (CHR '':'') (drop n5 s4) (\<lambda>s6.
       rePlus isDigit s6 (\<lambda>s7.
         if s7 = [] then Some (consumed s0 s3, consumed s4 (drop n5 s4), consumed s6 s7)
         else None))
       = Some r"
    unfolding s4_def by blast
  from reChar_Some [OF r5] obtain s6 where s5: "drop n5 s4 = CHR '':'' # s6"
    and r6: "rePlus isDigit s6 (\<lambda>s7.
         if s7 = [] then Some (consumed s0 s3, consumed s4 (drop n5 s4), consumed s6 s7)
         else None)
       = Some r"
    by blast
  from rePlus_Some [OF r6] obtain n7 where n7: "0 < n7" "n7 \<le> length s6"
    and d7: "list_all isDigit (take n7 s6)"
    and r7: "(if drop n7 s6 = [] then
                Some (consumed s0 s3, consumed s4 (drop n5 s4), consumed s6 (drop n7 s6))
              else None) = Some r"
    by blast
  from r7 have e7: "drop n7 s6 = []"
    and r: "r = (consumed s0 s3, consumed s4 (drop n5 s4), consumed s6 (drop n7 s6))"
    by (simp_all split: if_splits)
  define c where "c = take n5 s4"
  have c: "consumed s4 (drop n5 s4) = c" unfolding c_def by (rule consumed_drop [OF n5(2)])
  have v: "consumed s6 (drop n7 s6) = s6" using e7 n7 by (simp add: consumed_def)
  have "s3 = take n4 s3 @ s4" by (simp add: s4_def)
  also have "s4 = c @ drop n5 s4" by (simp add: c_def)
  also have "drop n5 s4 = '':'' @ s6" by (simp add: s5)
  finally have "s3 = take n4 s3 @ c @ '':'' @ s6" .
  moreover have "c \<noteq> []" using n5 by (auto simp: c_def)
  moreover have "s6 \<noteq> []" using n7 by auto
  moreover have "list_all isDigit c" using d5 by (simp add: c_def)
  moreover have "list_all isDigit s6" using d7 e7 n7 by simp
  moreover have "r = (consumed s0 s3, c, s6)" by (simp add: r c v)
  ultimately show ?thesis using ws by blast
qed

lemma refTail_digits:
  assumes c: "c \<noteq> []" "list_all isDigit c" and v: "v \<noteq> []" "list_all isDigit v"
  shows "refTail s0 (c @ '':'' @ v) = Some (consumed s0 (c @ '':'' @ v), c, v)"
proof -
  let ?s3 = "c @ '':'' @ v"
  let ?k7 = "\<lambda>s4 s5 s6 s7. if s7 = [] then Some (consumed s0 ?s3, consumed s4 s5, consumed s6 s7)
                            else None"
  have k7: "?k7 ?s3 ('':'' @ v) v [] = Some (consumed s0 ?s3, c, v)"
    by (simp add: consumed_def)
  have "rePlus isDigit (v @ []) (?k7 ?s3 ('':'' @ v) v) = Some (consumed s0 ?s3, c, v)"
    by (rule rePlus_run [OF v]) (simp_all add: consumed_def)
  then have "reChar (CHR '':'') ('':'' @ v) (\<lambda>s6. rePlus isDigit s6 (?k7 ?s3 ('':'' @ v) s6))
      = Some (consumed s0 ?s3, c, v)"
    by (simp add: reChar_def)
  moreover have "\<not> isDigit (hd ('':'' @ v))" by (simp add: isDigit_def)
  ultimately have "rePlus isDigit (c @ '':'' @ v)
      (\<lambda>s5. reChar (CHR '':'') s5 (\<lambda>s6. rePlus isDigit s6 (?k7 ?s3 s5 s6)))
      = Some (consumed s0 ?s3, c, v)"
    by (intro rePlus_run [OF c]) simp_all
  moreover from c have "\<not> isWhiteSpace (hd ?s3)"
    using isDigit_plain [of "hd c"] by (cases c) auto
  ultimately have "reStar isWhiteSpace ([] @ ?s3)
      (\<lambda>s4. rePlus isDigit s4
        (\<lambda>s5. reChar (CHR '':'') s5 (\<lambda>s6. rePlus isDigit s6 (?k7 s4 s5 s6))))
      = Some (consumed s0 ?s3, c, v)"
    by (intro reStar_run) simp_all
  then show ?thesis unfolding refTail_def by (simp only: append_Nil)
qed


lemma class_not_digit: "isAlpha c \<or> isWhiteSpace c \<Longrightarrow> \<not> isDigit c"
  by (auto simp: isAlpha_def isWhiteSpace_def isDigit_def)

lemma refName_last:
  assumes "refName g"
  shows "g \<noteq> [] \<and> \<not> isDigit (last g)"
proof -
  from assms obtain d w l where g: "g = d @ w @ l" and l: "l \<noteq> []"
    "list_all (\<lambda>c. isAlpha c \<or> isWhiteSpace c) l"
    unfolding refName_def by blast
  from l have "isAlpha (last l) \<or> isWhiteSpace (last l)"
    by (simp add: list_all_iff)
  then have "\<not> isDigit (last l)" by (rule class_not_digit)
  with g l(1) show ?thesis by simp
qed

lemma digits_suffix_unique:
  assumes eq: "g @ c = g' @ c'"
    and c: "list_all isDigit c" and c': "list_all isDigit c'"
    and g: "g \<noteq> [] \<and> \<not> isDigit (last g)" and g': "g' \<noteq> [] \<and> \<not> isDigit (last g')"
  shows "g = g' \<and> c = c'"
proof -
  from eq obtain us where "(g = g' @ us \<and> us @ c = c') \<or> (g @ us = g' \<and> c = us @ c')"
    by (auto simp: append_eq_append_conv2)
  then show ?thesis
  proof
    assume h: "g = g' @ us \<and> us @ c = c'"
    show ?thesis
    proof (cases "us = []")
      case True
      with h show ?thesis by simp
    next
      case False
      with h have "last g = last us" by simp
      moreover from h c' False have "isDigit (last us)" by (auto simp: list_all_iff)
      ultimately show ?thesis using g by simp
    qed
  next
    assume h: "g @ us = g' \<and> c = us @ c'"
    show ?thesis
    proof (cases "us = []")
      case True
      with h show ?thesis by simp
    next
      case False
      with h have "last g' = last us" by auto
      moreover from h c False have "isDigit (last us)" by (auto simp: list_all_iff)
      ultimately show ?thesis using g' by simp
    qed
  qed
qed

text \<open>
  A match splits the input into the first group, the digits of the chapter, a colon and
  the digits of the verse: the greedy first group takes the white space before the
  chapter as well.
\<close>

lemma verseRefPattern_sound:
  assumes "verseRefPattern s0 = Some (g, c, v)"
  shows "s0 = g @ c @ '':'' @ v \<and> refName g \<and>
         c \<noteq> [] \<and> list_all isDigit c \<and> v \<noteq> [] \<and> list_all isDigit v"
proof -
  let ?A = "\<lambda>c. isAlpha c \<or> isWhiteSpace c"
  from reOpt_Some_class [OF assms [unfolded verseRefPattern_tail]] obtain n1
    where n1: "n1 \<le> 1" "n1 \<le> length s0" "list_all (\<lambda>c. c \<in> set ''123'') (take n1 s0)"
      and r1: "reStar isWhiteSpace (drop n1 s0) (\<lambda>s2. rePlus ?A s2 (refTail s0)) = Some (g, c, v)"
    by blast
  define s1 where "s1 = drop n1 s0"
  from reStar_Some [OF r1] obtain n2
    where n2: "n2 \<le> length s1" "list_all isWhiteSpace (take n2 s1)"
      and r2: "rePlus ?A (drop n2 s1) (refTail s0) = Some (g, c, v)"
    unfolding s1_def by blast
  define s2 where "s2 = drop n2 s1"
  from rePlus_greedy [OF r2] obtain n3
    where n3: "0 < n3" "n3 \<le> length s2" "list_all ?A (take n3 s2)"
      and r3: "refTail s0 (drop n3 s2) = Some (g, c, v)"
      and mx: "\<forall>m. n3 < m \<longrightarrow> m \<le> length s2 \<longrightarrow> list_all ?A (take m s2) \<longrightarrow>
                   refTail s0 (drop m s2) = None"
    unfolding s2_def by blast
  define s3 where "s3 = drop n3 s2"
  from refTail_Some [OF r3] obtain w
    where s3: "s3 = w @ c @ '':'' @ v" and w: "list_all isWhiteSpace w"
      and c: "c \<noteq> []" "list_all isDigit c" and v: "v \<noteq> []" "list_all isDigit v"
      and g: "g = consumed s0 s3"
    unfolding s3_def by auto
  have "w = []"
  proof (rule ccontr)
    assume ne: "w \<noteq> []"
    let ?m = "n3 + length w"
    have len: "?m \<le> length s2"
    proof -
      have "length s3 = length s2 - n3" by (simp add: s3_def)
      moreover have "length w \<le> length s3" by (simp add: s3)
      ultimately show ?thesis using n3(2) by simp
    qed
    have "take ?m s2 = take n3 s2 @ take (length w) s3"
      by (simp add: take_add s3_def)
    also have "take (length w) s3 = w" by (simp add: s3)
    finally have "list_all ?A (take ?m s2)" using n3(3) w by (auto simp: list_all_iff)
    moreover have "n3 < ?m" using ne by simp
    ultimately have "refTail s0 (drop ?m s2) = None" using mx len by blast
    moreover have "drop ?m s2 = drop (length w) s3"
      by (simp add: s3_def add.commute)
    moreover have "drop (length w) s3 = c @ '':'' @ v" by (simp add: s3)
    ultimately have "refTail s0 (c @ '':'' @ v) = None" by simp
    with refTail_digits [OF c v, of s0] show False by simp
  qed
  with s3 have tail: "s3 = c @ '':'' @ v" by simp
  have s3': "s3 = drop (n1 + n2 + n3) s0"
    by (simp add: s3_def s2_def s1_def add.commute add.left_commute)
  have len3: "n1 + n2 + n3 \<le> length s0"
    using n1(2) n2(1) n3(2) by (simp add: s2_def s1_def)
  have g': "g = take (n1 + n2 + n3) s0"
    unfolding g s3' by (rule consumed_drop [OF len3])
  have "s0 = take (n1 + n2 + n3) s0 @ drop (n1 + n2 + n3) s0" by simp
  then have split: "s0 = g @ c @ '':'' @ v"
    by (simp only: g' [symmetric] s3' [symmetric] tail)
  have parts: "g = take n1 s0 @ take n2 s1 @ take n3 s2"
    by (simp add: g' s2_def s1_def take_add add.assoc)
  have "take n3 s2 \<noteq> []" using n3(1,2) by auto
  with parts n1 n2 n3 have "refName g"
    unfolding refName_def
    by (intro exI [of _ "take n1 s0"] exI [of _ "take n2 s1"] exI [of _ "take n3 s2"]) simp
  with split c v show ?thesis by simp
qed

text \<open>Every input of the reference shape is matched, with these three groups.\<close>

lemma verseRefPattern_complete:
  assumes g: "refName g"
    and c: "c \<noteq> []" "list_all isDigit c" and v: "v \<noteq> []" "list_all isDigit v"
  shows "verseRefPattern (g @ c @ '':'' @ v) = Some (g, c, v)"
proof -
  let ?A = "\<lambda>c. isAlpha c \<or> isWhiteSpace c"
  let ?s0 = "g @ c @ '':'' @ v"
  from g obtain d w l where parts: "g = d @ w @ l" and d: "length d \<le> 1"
    "list_all (\<lambda>c. c \<in> set ''123'') d" and w: "list_all isWhiteSpace w"
    and l: "l \<noteq> []" "list_all ?A l"
    unfolding refName_def by blast
  have "verseRefPattern ?s0 \<noteq> None"
  proof
    assume none: "verseRefPattern ?s0 = None"
    have "reStar isWhiteSpace (drop (length d) ?s0) (\<lambda>s2. rePlus ?A s2 (refTail ?s0)) = None"
      using d(2) by (intro reOpt_None [OF none [unfolded verseRefPattern_tail] d(1)])
        (simp_all add: parts)
    then have "reStar isWhiteSpace (w @ l @ c @ '':'' @ v) (\<lambda>s2. rePlus ?A s2 (refTail ?s0)) = None"
      by (simp add: parts)
    from reStar_None [OF this, of "length w"] w
    have "rePlus ?A (l @ c @ '':'' @ v) (refTail ?s0) = None" by simp
    from rePlus_None [OF this, of "length l"] l
    have "refTail ?s0 (c @ '':'' @ v) = None" by simp
    with refTail_digits [OF c v, of ?s0] show False by simp
  qed
  then obtain g' c' v' where m: "verseRefPattern ?s0 = Some (g', c', v')"
    by (cases "verseRefPattern ?s0") auto
  from verseRefPattern_sound [OF m]
  have eq: "?s0 = g' @ c' @ '':'' @ v'" and g': "refName g'"
    and c': "list_all isDigit c'" and v': "list_all isDigit v'" by simp_all
  have colon: "CHR '':'' \<notin> set v" "CHR '':'' \<notin> set v'"
    using v(2) v' isDigit_no_sign by (auto simp: list_all_iff)
  from eq have "(g @ c) @ CHR '':'' # v = (g' @ c') @ CHR '':'' # v'" by simp
  from split_at_last [OF colon this] have gc: "g @ c = g' @ c'" and "v = v'" by simp_all
  moreover from digits_suffix_unique [OF gc c(2) c' refName_last [OF g] refName_last [OF g']]
  have "g = g'" "c = c'" by simp_all
  ultimately show ?thesis using m by simp
qed

lemma verseRefPattern_iff:
  "verseRefPattern s = Some (g, c, v) \<longleftrightarrow>
     s = g @ c @ '':'' @ v \<and> refName g \<and>
     c \<noteq> [] \<and> list_all isDigit c \<and> v \<noteq> [] \<and> list_all isDigit v"
  using verseRefPattern_sound [of s g c v] verseRefPattern_complete [of g c v] by blast

subsection \<open>The three branches of searchVerses\<close>

text \<open>
  A query with a chapter of 16 digits finds the verse whose chapter is the nearest double.
\<close>

lemma searchVerses_rounds:
  "map v_chapter (searchVerses (newMemStorage (Some bigChapter)) ''john 9007199254740993:1'')
     = [9007199254740992]"
proof -
  have m: "verseRefPattern (trim (toLowerCase ''john 9007199254740993:1''))
             = Some (''john '', ''9007199254740993'', ''1'')"
    by code_simp
  have t: "toLowerCase (trim ''john '') = ''john''" by code_simp
  have p: "parseInt ''1'' = Finite 1"
    by (simp add: parseInt_digits toDouble_small isDigit_def digitVal_def)
  have i: "strIncludes (toLowerCase ''John'') ''john''" by code_simp
  have v: "map_values (verses (newMemStorage (Some bigChapter))) =
             [\<lparr>v_id = 1, v_book = ''John'', v_chapter = 9007199254740992, v_verse = 1,
               v_text = ''In the beginning was the Word''\<rparr>]"
    by (simp add: bigChapter_def newMemStorage_def initializeBibleData_def tryBlock_def
        loadVerse_def reduceMax_def Let_def map_has_def emptyStorage_def map_values_def)
  show ?thesis
    by (simp add: searchVerses_def m t p i v parseInt_rounds Let_def)
qed

text \<open>
  C1: when the trimmed, lower-cased query matches the reference pattern, it is the first
  group (an optional digit 1 to 3, white space, letters and white space:
  \<open>verseRefPattern_iff\<close>), the digits of the chapter, a colon and the digits of the
  verse. The name searched for is the trimmed first group; the numbers searched for are
  what \<open>parseInt\<close> gives for the two digit strings, the doubles of their decimal values
  (\<open>parseInt_digits\<close>), never \<open>NaN\<close>. Then \<open>searchVerses\<close> returns the one-element
  list of the first stored verse whose lower-cased book contains that name
  (\<open>strIncludes_iff\<close>) and whose chapter and verse are equal to the parsed numbers, or
  the empty list when no stored verse is such; the other two branches have no part in
  the result.
\<close>

theorem searchVerses_reference:
  assumes "verseRefPattern (trim (toLowerCase query)) = Some (bookName, chapterStr, verseStr)"
  shows
    "trim (toLowerCase query) = bookName @ chapterStr @ '':'' @ verseStr \<and>
     refName bookName \<and>
     parseInt chapterStr \<noteq> NaN \<and> parseInt verseStr \<noteq> NaN \<and>
     ((\<exists>pre m post.
         map_values (verses st) = pre @ m # post \<and>
         (\<forall>x\<in>set pre. \<not> (strIncludes (toLowerCase (v_book x)) (trim bookName) \<and>
                             Finite (v_chapter x) = parseInt chapterStr \<and>
                             Finite (v_verse x) = parseInt verseStr)) \<and>
         strIncludes (toLowerCase (v_book m)) (trim bookName) \<and>
         Finite (v_chapter m) = parseInt chapterStr \<and>
         Finite (v_verse m) = parseInt verseStr \<and>
         searchVerses st query = [m]) \<or>
      ((\<forall>x\<in>set (map_values (verses st)).
          \<not> (strIncludes (toLowerCase (v_book x)) (trim bookName) \<and>
             Finite (v_chapter x) = parseInt chapterStr \<and>
             Finite (v_verse x) = parseInt verseStr)) \<and>
       searchVerses st query = []))"
proof -
  from verseRefPattern_sound [OF assms]
  have split: "trim (toLowerCase query) = bookName @ chapterStr @ '':'' @ verseStr"
    and name: "refName bookName"
    and c: "chapterStr \<noteq> []" "list_all isDigit chapterStr"
    and v: "verseStr \<noteq> []" "list_all isDigit verseStr"
    by simp_all
  note cn = parseInt_not_NaN [OF c] and vn = parseInt_not_NaN [OF v]
  have "set (trim bookName) \<subseteq> set bookName" by (rule set_trim)
  also have "\<dots> \<subseteq> set (trim (toLowerCase query))" by (auto simp: split)
  also have "\<dots> \<subseteq> set (toLowerCase query)" by (rule set_trim)
  finally have clean: "toLowerCase (trim bookName) = trim bookName"
    by (rule toLowerCase_fixed)
  let ?P = "\<lambda>x. strIncludes (toLowerCase (v_book x)) (trim bookName) \<and>
                 Finite (v_chapter x) = parseInt chapterStr \<and>
                 Finite (v_verse x) = parseInt verseStr"
  have res: "searchVerses st query =
               (case find ?P (map_values (verses st)) of Some m \<Rightarrow> [m] | None \<Rightarrow> [])"
    by (simp add: searchVerses_def assms clean Let_def)
  have "(\<exists>pre m post.
           map_values (verses st) = pre @ m # post \<and> (\<forall>x\<in>set pre. \<not> ?P x) \<and> ?P m \<and>
           searchVerses st query = [m]) \<or>
        ((\<forall>x\<in>set (map_values (verses st)). \<not> ?P x) \<and> searchVerses st query = [])"
  proof (cases "find ?P (map_values (verses st))")
    case None
    then have "\<forall>x\<in>set (map_values (verses st)). \<not> ?P x" by (simp only: find_None_set)
    with None res show ?thesis by simp
  next
    case (Some m)
    from find_Some_split [OF Some] obtain pre post
      where "map_values (verses st) = pre @ m # post" "\<forall>x\<in>set pre. \<not> ?P x" "?P m"
      by blast
    moreover from Some res have "searchVerses st query = [m]" by simp
    ultimately show ?thesis by blast
  qed
  with split name cn vn show ?thesis by blast
qed

theorem searchVerses_reference_witness:
  "verseRefPattern (trim (toLowerCase ''John 3:16'')) = Some (''john '', ''3'', ''16'') \<and>
   parseInt ''3'' = Finite 3 \<and> parseInt ''16'' = Finite 16 \<and>
   length (searchVerses (newMemStorage None) ''John 3:16'') \<le> 1 \<and>
   map v_id (searchVerses (newMemStorage None) ''John 3:16'') = [3]"
proof -
  have m: "verseRefPattern (trim (toLowerCase ''John 3:16'')) = Some (''john '', ''3'', ''16'')"
    by code_simp
  have t: "toLowerCase (trim ''john '') = ''john''" by code_simp
  have p: "parseInt ''3'' = Finite 3" "parseInt ''16'' = Finite 16"
    by (simp_all add: parseInt_digits toDouble_small isDigit_def digitVal_def)
  have i: "strIncludes (toLowerCase ''John'') ''john''" by code_simp
  from searchVerses_reference [OF m, of "newMemStorage None"]
  have "length (searchVerses (newMemStorage None) ''John 3:16'') \<le> 1" by auto
  moreover have "map v_id (searchVerses (newMemStorage None) ''John 3:16'') = [3]"
    by (simp add: searchVerses_def m t p i Let_def sample_verses map_values_def)
  ultimately show ?thesis using m p by simp
qed

text \<open>
  C2: when the normalized query does not match the reference pattern, is longer than 2
  and is contained in the lower-cased book of some stored verse, \<open>searchVerses\<close> returns
  the first 10, in storage order, of the stored verses of chapter 1 of the book of the
  first such verse.
\<close>

theorem searchVerses_book:
  assumes "verseRefPattern (trim (toLowerCase query)) = None"
    and "\<exists>v\<in>set (map_values (verses st)).
           strIncludes (toLowerCase (v_book v)) (trim (toLowerCase query))"
    and "2 < length (trim (toLowerCase query))"
  shows
    "\<exists>pre m post.
       map_values (verses st) = pre @ m # post \<and>
       (\<forall>x\<in>set pre. \<not> strIncludes (toLowerCase (v_book x)) (trim (toLowerCase query))) \<and>
       strIncludes (toLowerCase (v_book m)) (trim (toLowerCase query)) \<and>
       searchVerses st query =
         take 10 (filter (\<lambda>v. v_book v = v_book m \<and> v_chapter v = 1) (map_values (verses st))) \<and>
       length (searchVerses st query) \<le> 10 \<and>
       (\<forall>x\<in>set (searchVerses st query). v_book x = v_book m \<and> v_chapter x = 1)"
proof -
  let ?q = "trim (toLowerCase query)"
  let ?P = "\<lambda>x. strIncludes (toLowerCase (v_book x)) ?q"
  let ?vals = "map_values (verses st)"
  from assms(2) have ne: "filter ?P ?vals \<noteq> []"
    by (simp add: filter_empty_conv)
  define m where "m = hd (filter ?P ?vals)"
  from hd_filter_find [OF ne] have "find ?P ?vals = Some m" by (simp add: m_def)
  from find_Some_split [OF this] obtain pre post
    where split: "?vals = pre @ m # post" "\<forall>x\<in>set pre. \<not> ?P x" "?P m"
    by blast
  have res: "searchVerses st query =
               take 10 (filter (\<lambda>v. v_book v = v_book m \<and> v_chapter v = 1) ?vals)"
    using ne assms(3) by (simp add: searchVerses_def assms(1) Let_def m_def)
  have len: "length (searchVerses st query) \<le> 10" by (simp add: res)
  have "\<forall>x\<in>set (searchVerses st query). v_book x = v_book m \<and> v_chapter x = 1"
    unfolding res by (auto dest: in_set_takeD)
  with split res len show ?thesis by blast
qed

text \<open>
  C3: when the normalized query does not match the reference pattern and the book-name
  branch is not taken (no stored verse has a lower-cased book that contains the query, or
  the query has at most 2 characters), \<open>searchVerses\<close> returns every stored verse whose
  lower-cased text or lower-cased book contains the query, in storage order, all of them.
\<close>

theorem searchVerses_text:
  assumes "verseRefPattern (trim (toLowerCase query)) = None"
    and "\<not> ((\<exists>v\<in>set (map_values (verses st)).
               strIncludes (toLowerCase (v_book v)) (trim (toLowerCase query))) \<and>
            2 < length (trim (toLowerCase query)))"
  shows
    "searchVerses st query =
       filter (\<lambda>v. strIncludes (toLowerCase (v_text v)) (trim (toLowerCase query)) \<or>
                   strIncludes (toLowerCase (v_book v)) (trim (toLowerCase query)))
         (map_values (verses st)) \<and>
     set (searchVerses st query) =
       {v \<in> set (map_values (verses st)).
          strIncludes (toLowerCase (v_text v)) (trim (toLowerCase query)) \<or>
          strIncludes (toLowerCase (v_book v)) (trim (toLowerCase query))}"
proof -
  let ?q = "trim (toLowerCase query)"
  let ?P = "\<lambda>x. strIncludes (toLowerCase (v_book x)) ?q"
  from assms(2) have "\<not> (0 < length (filter ?P (map_values (verses st))) \<and> 2 < length ?q)"
    by (auto simp: filter_empty_conv)
  then have "searchVerses st query =
       filter (\<lambda>v. strIncludes (toLowerCase (v_text v)) ?q \<or> strIncludes (toLowerCase (v_book v)) ?q)
         (map_values (verses st))"
    by (auto simp: searchVerses_def assms(1) Let_def)
  then show ?thesis by simp
qed

theorem searchVerses_book_witness:
  "verseRefPattern (trim (toLowerCase ''Gen'')) = None \<and>
   (\<exists>v\<in>set (map_values (verses (newMemStorage None))).
      strIncludes (toLowerCase (v_book v)) (trim (toLowerCase ''Gen''))) \<and>
   2 < length (trim (toLowerCase ''Gen'')) \<and>
   length (searchVerses (newMemStorage None) ''Gen'') \<le> 10 \<and>
   map v_id (searchVerses (newMemStorage None) ''Gen'') = [1]"
proof -
  have m: "verseRefPattern (trim (toLowerCase ''Gen'')) = None" by code_simp
  have q: "trim (toLowerCase ''Gen'') = ''gen''" by code_simp
  have "strIncludes (toLowerCase ''Genesis'') ''gen''" by code_simp
  then have b: "\<exists>v\<in>set (map_values (verses (newMemStorage None))).
      strIncludes (toLowerCase (v_book v)) (trim (toLowerCase ''Gen''))"
    by (simp add: sample_verses map_values_def q)
  have l: "2 < length (trim (toLowerCase ''Gen''))" by (simp add: q)
  from searchVerses_book [OF m b l]
  have "length (searchVerses (newMemStorage None) ''Gen'') \<le> 10" by blast
  moreover have "map v_id (searchVerses (newMemStorage None) ''Gen'') = [1]"
    by code_simp
  ultimately show ?thesis using m b l by simp
qed

theorem searchVerses_text_witness:
  "verseRefPattern (trim (toLowerCase ''God'')) = None \<and>
   \<not> ((\<exists>v\<in>set (map_values (verses (newMemStorage None))).
          strIncludes (toLowerCase (v_book v)) (trim (toLowerCase ''God''))) \<and>
       2 < length (trim (toLowerCase ''God''))) \<and>
   map v_id (searchVerses (newMemStorage None) ''God'') = [1, 3]"
proof -
  have m: "verseRefPattern (trim (toLowerCase ''God'')) = None" by code_simp
  have q: "trim (toLowerCase ''God'') = ''god''" by code_simp
  have nb: "\<not> strIncludes (toLowerCase ''Genesis'') ''god''"
    "\<not> strIncludes (toLowerCase ''Matthew'') ''god''"
    "\<not> strIncludes (toLowerCase ''John'') ''god''" by code_simp+
  then have b: "\<not> ((\<exists>v\<in>set (map_values (verses (newMemStorage None))).
          strIncludes (toLowerCase (v_book v)) (trim (toLowerCase ''God''))) \<and>
       2 < length (trim (toLowerCase ''God'')))"
    by (simp add: sample_verses map_values_def q)
  have t: "strIncludes (toLowerCase ''In the beginning God created the heavens and the earth.'') ''god''"
    "\<not> strIncludes (toLowerCase ''Blessed are the poor in spirit, for theirs is the kingdom of heaven.'') ''god''"
    "strIncludes (toLowerCase ''For God so loved the world that he gave his one and only Son, that whoever believes in him shall not perish but have eternal life.'') ''god''"
    by code_simp+
  from searchVerses_text [OF m b]
  have "map v_id (searchVerses (newMemStorage None) ''God'') =
        map v_id (filter (\<lambda>v. strIncludes (toLowerCase (v_text v)) ''god'' \<or>
                   strIncludes (toLowerCase (v_book v)) ''god'')
         (map_values (verses (newMemStorage None))))"
    by (simp add: q)
  also have "\<dots> = [1, 3]"
    using t nb by (simp add: sample_verses map_values_def)
  finally show ?thesis using m b by simp
qed

subsection \<open>The verses map of every reachable store\<close>

lemma versesInv_set:
  assumes "versesInv st"
    and "verses st' = map_set (verseKey (v_book x) (v_chapter x) (v_verse x)) x (verses st)"
  shows "versesInv st'"
  using assms by (simp add: versesInv_def map_set_distinct map_set_all)

lemma verses_loadVerse:
  "verses (storeOf (loadVerse vs acc verse)) = verses (snd acc) \<or>
   (\<exists>x. verses (storeOf (loadVerse vs acc verse)) =
      map_set (verseKey (v_book x) (v_chapter x) (v_verse x)) x (verses (snd acc)))"
proof (cases "loadVerse vs acc verse")
  case (Inl st)
  then have "verses st = verses (snd acc)"
    by (auto simp: loadVerse_def Let_def split: if_splits field.splits option.splits)
  with Inl show ?thesis by (simp add: storeOf_def)
next
  case (Inr acc')
  then obtain c v where c: "e_chapter verse = Number c" and v: "e_verse verse = Number v"
    by (cases "e_chapter verse"; cases "e_verse verse")
      (auto simp: loadVerse_def Let_def split: if_splits field.splits option.splits)
  from Inr c v obtain n where
    "verses (snd acc') =
       map_set (verseKey (e_book_name verse) c v)
         \<lparr>v_id = n, v_book = e_book_name verse, v_chapter = c, v_verse = v,
           v_text = e_text verse\<rparr> (verses (snd acc))"
    by (auto simp: loadVerse_def Let_def split: if_splits field.splits option.splits)
  then have "verses (snd acc') =
       map_set (verseKey
           (v_book \<lparr>v_id = n, v_book = e_book_name verse, v_chapter = c, v_verse = v,
                    v_text = e_text verse\<rparr>)
           (v_chapter \<lparr>v_id = n, v_book = e_book_name verse, v_chapter = c, v_verse = v,
                       v_text = e_text verse\<rparr>)
           (v_verse \<lparr>v_id = n, v_book = e_book_name verse, v_chapter = c, v_verse = v,
                     v_text = e_text verse\<rparr>))
         \<lparr>v_id = n, v_book = e_book_name verse, v_chapter = c, v_verse = v,
           v_text = e_text verse\<rparr> (verses (snd acc))"
    by simp
  with Inr show ?thesis unfolding storeOf_def by (simp only: sum.case) blast
qed

lemma versesInv_loadVerse:
  assumes "versesInv (snd acc)"
  shows "versesInv (storeOf (loadVerse vs acc verse))"
proof -
  from verses_loadVerse [of vs acc verse]
  consider "verses (storeOf (loadVerse vs acc verse)) = verses (snd acc)"
    | x where "verses (storeOf (loadVerse vs acc verse)) =
        map_set (verseKey (v_book x) (v_chapter x) (v_verse x)) x (verses (snd acc))"
    by blast
  then show ?thesis
  proof cases
    case 1
    with assms show ?thesis by (simp add: versesInv_def)
  next
    case (2 x)
    from assms 2 show ?thesis by (rule versesInv_set)
  qed
qed

lemma versesInv_loadVerses:
  "versesInv (snd acc) \<Longrightarrow> versesInv (storeOf (loadVerses vs acc xs))"
proof (induction xs arbitrary: acc)
  case Nil
  then show ?case by (simp add: storeOf_def)
next
  case (Cons x xs)
  from Cons.prems have step: "versesInv (storeOf (loadVerse vs acc x))"
    by (rule versesInv_loadVerse)
  show ?case
  proof (cases "loadVerse vs acc x")
    case (Inl st)
    with step show ?thesis by (simp add: storeOf_def)
  next
    case (Inr acc1)
    with step have "versesInv (snd acc1)" by (simp add: storeOf_def)
    from Cons.IH [OF this] Inr show ?thesis by (simp add: storeOf_def)
  qed
qed

text \<open>The fallback keeps the invariant from whatever store it starts.\<close>

lemma versesInv_addSampleBook: "versesInv (addSampleBook st b) = versesInv st"
  by (simp add: versesInv_def addSampleBook_def Let_def)

lemma versesInv_addSampleVerse:
  assumes "versesInv st"
  shows "versesInv (addSampleVerse st v)"
proof -
  let ?x = "\<lparr>v_id = currentVerseId st, v_book = iv_book v, v_chapter = iv_chapter v,
             v_verse = iv_verse v, v_text = iv_text v\<rparr>"
  have "verses (addSampleVerse st v) =
          map_set (verseKey (v_book ?x) (v_chapter ?x) (v_verse ?x)) ?x (verses st)"
    by (simp add: addSampleVerse_def Let_def)
  with assms show ?thesis by (rule versesInv_set)
qed

lemma versesInv_sample:
  assumes "versesInv st"
  shows "versesInv (initializeSampleData st)"
proof -
  have "versesInv (foldl addSampleVerse st' xs)" if "versesInv st'" for st' xs
    using that by (induction xs arbitrary: st') (simp_all add: versesInv_addSampleVerse)
  moreover have "versesInv (foldl addSampleBook st xs)" for xs
    using assms by (induction xs arbitrary: st) (simp_all add: versesInv_addSampleBook)
  ultimately show ?thesis by (simp add: initializeSampleData_def)
qed

lemma versesInv_new: "versesInv (newMemStorage d)"
proof -
  have start: "versesInv emptyStorage" by (simp add: versesInv_def emptyStorage_def)
  show ?thesis
  proof (cases d)
    case None
    from versesInv_sample [OF start] show ?thesis by (simp add: None newMemStorage_None)
  next
    case (Some vs)
    from start have "versesInv (snd (([], emptyStorage) :: (string, BibleBook) jsmap \<times> MemStorage))"
      by simp
    from versesInv_loadVerses [OF this, of vs vs]
    have loaded: "versesInv (storeOf (loadVerses vs ([], emptyStorage) vs))" .
    show ?thesis
    proof (cases "loadVerses vs ([], emptyStorage) vs")
      case (Inl st)
      with loaded have "versesInv st" by (simp add: storeOf_def)
      from versesInv_sample [OF this] Inl show ?thesis by (simp add: Some newMemStorage_Some)
    next
      case (Inr acc)
      with loaded show ?thesis by (simp add: Some newMemStorage_Some storeOf_def)
    qed
  qed
qed

lemma versesInv_run: "versesInv (run (newMemStorage d) ops)"
  using versesInv_new [of d] by (simp add: versesInv_def run_verses)

subsection \<open>Looking a verse up\<close>

lemma getVerse_Some_iff:
  assumes "versesInv st"
  shows "getVerse st b c v = Some x \<longleftrightarrow>
           x \<in> set (map_values (verses st)) \<and> v_book x = b \<and> v_chapter x = c \<and> v_verse x = v"
proof
  assume "getVerse st b c v = Some x"
  then have mem: "(verseKey b c v, x) \<in> set (verses st)"
    by (simp add: getVerse_def map_get_def map_of_SomeD)
  with assms have "verseKey b c v = verseKey (v_book x) (v_chapter x) (v_verse x)"
    by (auto simp: versesInv_def list_all_iff)
  from verseKey_inj [OF this] mem
  show "x \<in> set (map_values (verses st)) \<and> v_book x = b \<and> v_chapter x = c \<and> v_verse x = v"
    by (force simp: map_values_def)
next
  assume h: "x \<in> set (map_values (verses st)) \<and> v_book x = b \<and> v_chapter x = c \<and> v_verse x = v"
  then obtain k where k: "(k, x) \<in> set (verses st)" by (auto simp: map_values_def)
  with assms have "k = verseKey (v_book x) (v_chapter x) (v_verse x)"
    by (auto simp: versesInv_def list_all_iff)
  with h have "k = verseKey b c v" by simp
  moreover from assms have "distinct (map fst (verses st))" by (simp add: versesInv_def)
  ultimately show "getVerse st b c v = Some x"
    using k by (simp add: getVerse_def map_get_def)
qed

lemma triples_distinct:
  assumes "versesInv st"
  shows "distinct (map (\<lambda>x. (v_book x, v_chapter x, v_verse x)) (map_values (verses st)))"
proof -
  from assms have "map fst (verses st) =
      map (\<lambda>e. verseKey (v_book (snd e)) (v_chapter (snd e)) (v_verse (snd e))) (verses st)"
    by (simp add: versesInv_def list_all_iff)
  with assms have
    "distinct (map (\<lambda>e. verseKey (v_book (snd e)) (v_chapter (snd e)) (v_verse (snd e))) (verses st))"
    by (simp add: versesInv_def)
  then have "distinct (map (\<lambda>e. (v_book (snd e), v_chapter (snd e), v_verse (snd e))) (verses st))"
    by (rule distinct_map_transfer) simp
  then show ?thesis by (simp add: map_values_def comp_def)
qed

text \<open>
  C4: in a store whose verses map satisfies the invariant (every store reached from
  the constructor does, \<open>versesInv_run\<close>), the triples (book, chapter, verse) of the stored
  verses are pairwise distinct, and for all arguments \<open>getVerse\<close> returns the stored verse
  whose book, chapter and verse are the arguments, and the absent value exactly when no
  stored verse has them.
\<close>

theorem getVerse_exact:
  assumes "versesInv st"
  shows
    "distinct (map (\<lambda>x. (v_book x, v_chapter x, v_verse x)) (map_values (verses st))) \<and>
     (getVerse st b c v = Some x \<longleftrightarrow>
        x \<in> set (map_values (verses st)) \<and> v_book x = b \<and> v_chapter x = c \<and> v_verse x = v) \<and>
     (getVerse st b c v = None \<longleftrightarrow>
        \<not> (\<exists>y\<in>set (map_values (verses st)). v_book y = b \<and> v_chapter y = c \<and> v_verse y = v))"
proof -
  have "getVerse st b c v = None \<longleftrightarrow>
        \<not> (\<exists>y\<in>set (map_values (verses st)). v_book y = b \<and> v_chapter y = c \<and> v_verse y = v)"
  proof (cases "getVerse st b c v")
    case None
    have "\<not> (v_book y = b \<and> v_chapter y = c \<and> v_verse y = v)"
      if "y \<in> set (map_values (verses st))" for y
      using getVerse_Some_iff [OF assms, of b c v y] None that by simp
    with None show ?thesis by blast
  next
    case (Some y)
    with getVerse_Some_iff [OF assms, of b c v y] show ?thesis by auto
  qed
  with triples_distinct [OF assms] getVerse_Some_iff [OF assms, of b c v x]
  show ?thesis by blast
qed

theorem getVerse_exact_witness:
  "versesInv (newMemStorage None) \<and>
   getVerse (newMemStorage None) ''John'' 3 16 =
     Some \<lparr>v_id = 3, v_book = ''John'', v_chapter = 3, v_verse = 16,
         v_text = ''For God so loved the world that he gave his one and only Son, that whoever believes in him shall not perish but have eternal life.''\<rparr> \<and>
   getVerse (newMemStorage None) ''John'' 3 17 = None"
proof -
  have inv: "versesInv (newMemStorage None)" by (rule versesInv_new)
  let ?x = "\<lparr>v_id = 3, v_book = ''John'', v_chapter = 3, v_verse = 16,
         v_text = ''For God so loved the world that he gave his one and only Son, that whoever believes in him shall not perish but have eternal life.''\<rparr>"
  from getVerse_exact [OF inv, of "''John''" 3 16 ?x]
  have a: "getVerse (newMemStorage None) ''John'' 3 16 = Some ?x"
    by (simp add: sample_verses map_values_def)
  from getVerse_exact [OF inv, of "''John''" 3 17]
  have b: "getVerse (newMemStorage None) ''John'' 3 17 = None"
    by (simp add: sample_verses map_values_def)
  from inv a b show ?thesis by simp
qed

end
